theory Spec2Isabelle
  imports Main "HOL-Library.AList" "HOL-Library.Sublist"
begin

section \<open>Overview\<close>

text \<open>
  \<open>pycli.py\<close> asks a local chat endpoint for a reply, takes the first fenced code block and
  an optional file name out of it, saves the code and, when the user agrees, asks the model
  for a command that runs the file, runs it, and offers to send a failure back to the model.
  The functions \<open>call_ollama_api_stream\<close>, \<open>extract_code_block\<close> and \<open>handle_response\<close>
  are modelled here together with the library calls they make: regular expression search,
  string methods, path functions, \<open>os.makedirs\<close>, \<open>open\<close>, \<open>input\<close>, the HTTP request and
  the shell.  Keyboard, endpoint, shell and disk are explicit: the lines typed are a list, the
  endpoint and the shell are functions that say what the \<open>n\<close>-th request and command lead to,
  the disk is a table, and everything the process does to them is recorded in a trace.  An
  exception that leaves a function is a value of its result.
\<close>

section \<open>Text: Python strings as character lists\<close>

text \<open>
  A Python \<open>str\<close> is modelled as a \<open>string\<close>; every character stands for the code point
  of the same number (0 to 255).  \<open>isspace\<close>, \<open>strip\<close> and \<open>lower\<close> are the methods of
  \<open>str\<close> on these code points.
\<close>

definition nl :: char where
  "nl = CHR 0x0A"

definition isspace :: "char \<Rightarrow> bool" where
  "isspace c \<longleftrightarrow> (let n = (of_char c :: nat) in
      (9 \<le> n \<and> n \<le> 13) \<or> (28 \<le> n \<and> n \<le> 32) \<or> n = 133 \<or> n = 160)"

definition strip :: "string \<Rightarrow> string" where
  "strip s = rev (dropWhile isspace (rev (dropWhile isspace s)))"

definition lower_char :: "char \<Rightarrow> char" where
  "lower_char c = (let n = (of_char c :: nat) in
      if (65 \<le> n \<and> n \<le> 90) \<or> (192 \<le> n \<and> n \<le> 222 \<and> n \<noteq> 215)
      then char_of (n + 32) else c)"

definition lower :: "string \<Rightarrow> string" where
  "lower s = map lower_char s"

text \<open>Truth value of an optional string: \<open>None\<close> and the empty string are false.\<close>

definition truthy :: "string option \<Rightarrow> bool" where
  "truthy x = (case x of None \<Rightarrow> False | Some s \<Rightarrow> s \<noteq> [])"

text \<open>Decimal rendering of an integer, as an f-string does it.\<close>

definition digit :: "nat \<Rightarrow> char" where
  "digit d = char_of (48 + d)"

fun str_nat :: "nat \<Rightarrow> string" where
  "str_nat n = (if n < 10 then [digit n] else str_nat (n div 10) @ [digit (n mod 10)])"

declare str_nat.simps [simp del]

definition str_int :: "int \<Rightarrow> string" where
  "str_int i = (if i < 0 then CHR ''-'' # str_nat (nat (- i)) else str_nat (nat i))"

text \<open>Reading a decimal numeral back (used in proofs only).\<close>

definition digit_val :: "char \<Rightarrow> nat" where
  "digit_val c = of_char c - 48"

definition number_of :: "string \<Rightarrow> nat" where
  "number_of s = foldl (\<lambda>a c. 10 * a + digit_val c) 0 s"

section \<open>The two regular expressions of \<open>extract_code_block\<close>\<close>

text \<open>
  Both patterns are a sequence of literal characters and lazy capturing groups \<open>(.*?)\<close>.
  \<open>match_here\<close> is the backtracking matcher of \<open>re\<close> anchored at the start of its
  argument: a lazy group first tries to stop, then takes one more character; without
  \<open>re.DOTALL\<close> the dot refuses a newline.  It returns the captured groups in order.
  \<open>re_search\<close> tries every start position from the left, the end of the text included.
\<close>

datatype tok = Lit char | Group

fun lazy_group ::
  "bool \<Rightarrow> (string \<Rightarrow> string list option) \<Rightarrow> string \<Rightarrow> string \<Rightarrow> string list option" where
  "lazy_group dotall k acc [] = map_option (Cons acc) (k [])"
| "lazy_group dotall k acc (c # cs) =
     (case k (c # cs) of
        Some gs \<Rightarrow> Some (acc # gs)
      | None \<Rightarrow> if dotall \<or> c \<noteq> nl then lazy_group dotall k (acc @ [c]) cs else None)"

primrec match_here :: "bool \<Rightarrow> tok list \<Rightarrow> string \<Rightarrow> string list option" where
  "match_here dotall [] = (\<lambda>s. Some [])"
| "match_here dotall (t # ts) =
     (case t of
        Lit c \<Rightarrow> (\<lambda>s. case s of [] \<Rightarrow> None
                         | x # xs \<Rightarrow> if x = c then match_here dotall ts xs else None)
      | Group \<Rightarrow> lazy_group dotall (match_here dotall ts) [])"

fun re_search :: "bool \<Rightarrow> tok list \<Rightarrow> string \<Rightarrow> string list option" where
  "re_search dotall ts [] = match_here dotall ts []"
| "re_search dotall ts (c # cs) =
     (case match_here dotall ts (c # cs) of
        Some gs \<Rightarrow> Some gs
      | None \<Rightarrow> re_search dotall ts cs)"

definition filename_marker :: string where
  "filename_marker = ''filename: ''"

definition fence :: string where
  "fence = ''```''"

text \<open>\<^verbatim>\<open>r"filename: (.*?)\n"\<close>\<close>

definition filename_re :: "tok list" where
  "filename_re = map Lit filename_marker @ [Group, Lit nl]"

text \<open>\<^verbatim>\<open>r"```(.*?)\n(.*?)```"\<close>, used with \<open>re.DOTALL\<close>\<close>

definition code_re :: "tok list" where
  "code_re = map Lit fence @ [Group, Lit nl, Group] @ map Lit fence"

definition extract_code_block :: "string \<Rightarrow> string option \<times> string option \<times> string option" where
  "extract_code_block response_text =
     (let filename_match = re_search False filename_re response_text;
          filename = (case filename_match of Some gs \<Rightarrow> Some (strip (gs ! 0)) | None \<Rightarrow> None);
          code_match = re_search True code_re response_text
      in case code_match of
           Some gs \<Rightarrow>
             (let l = lower (strip (gs ! 0));
                  language = (if l = [] then ''python'' else l);
                  code = strip (gs ! 1)
              in (filename, Some language, Some code))
         | None \<Rightarrow> (filename, None, None))"

section \<open>Exceptions, messages and the observable trace\<close>

datatype exn =
    RequestException string
  | EOFError
  | JSONDecodeError
  | FileNotFoundError
  | FileExistsError
  | NotADirectoryError
  | IsADirectoryError

text \<open>A chat message is a dictionary with the keys \<open>role\<close>, \<open>content\<close> and, optionally, \<open>images\<close>.\<close>

record message =
  role :: string
  content :: string
  images :: "string list option"

definition msg :: "string \<Rightarrow> string \<Rightarrow> message" where
  "msg r c = \<lparr>role = r, content = c, images = None\<rparr>"

text \<open>
  What the process does to the outside, in order: text printed, a prompt shown by \<open>input\<close>
  with the line read (\<open>None\<close> at end of input), a request posted to the endpoint (model and
  messages), a command handed to the shell.
\<close>

datatype event =
    Print string
  | Input string "string option"
  | Post string "message list"
  | Run string

section \<open>The file system\<close>

text \<open>
  The disk is a finite table from path strings to nodes.  A path is looked up as it is
  written, but for trailing slashes (no \<open>.\<close>, \<open>..\<close>, doubled slashes or links are
  resolved); the empty path names nothing, a relative name with no directory part lives in
  the working directory, which always exists, and so does the root.  Permissions and full
  disks are outside the model: the errors that remain are those of the shape of the tree.
\<close>

datatype node = File string | Dir

type_synonym filesystem = "(string \<times> node) list"

definition rstrip_slash :: "string \<Rightarrow> string" where
  "rstrip_slash s = rev (dropWhile (\<lambda>c. c = CHR ''/'') (rev s))"

definition canon :: "string \<Rightarrow> string" where
  "canon p = (if p \<noteq> [] \<and> p = replicate (length p) (CHR ''/'') then ''/'' else rstrip_slash p)"

definition path_exists :: "filesystem \<Rightarrow> string \<Rightarrow> bool" where
  "path_exists disk p \<longleftrightarrow> p \<noteq> [] \<and> (canon p = ''/'' \<or> map_of disk (canon p) \<noteq> None)"

definition isdir :: "filesystem \<Rightarrow> string \<Rightarrow> bool" where
  "isdir disk p \<longleftrightarrow> p \<noteq> [] \<and> (canon p = ''/'' \<or> map_of disk (canon p) = Some Dir)"

text \<open>\<open>posixpath.split\<close> and \<open>posixpath.dirname\<close>.\<close>

definition path_split :: "string \<Rightarrow> string \<times> string" where
  "path_split p =
     (let i = length p - length (takeWhile (\<lambda>c. c \<noteq> CHR ''/'') (rev p));
          head = take i p;
          tail = drop i p
      in (if head \<noteq> [] \<and> head \<noteq> replicate (length head) (CHR ''/'')
          then rstrip_slash head else head, tail))"

definition dirname :: "string \<Rightarrow> string" where
  "dirname p = fst (path_split p)"

text \<open>The directory in which the last component of a path is looked up.\<close>

definition parent_ok :: "filesystem \<Rightarrow> string \<Rightarrow> exn option" where
  "parent_ok disk p =
     (let parent = dirname (canon p)
      in if parent = [] \<or> isdir disk parent then None
         else if path_exists disk parent then Some NotADirectoryError
         else Some FileNotFoundError)"

definition mkdir :: "filesystem \<Rightarrow> string \<Rightarrow> exn + filesystem" where
  "mkdir disk p =
     (if p = [] then Inl FileNotFoundError
      else if path_exists disk p then Inl FileExistsError
      else case parent_ok disk p of
             Some e \<Rightarrow> Inl e
           | None \<Rightarrow> Inr (AList.update (canon p) Dir disk))"

text \<open>
  \<open>os.makedirs(name, exist_ok=True)\<close>: the parent first when it is missing, then
  \<open>mkdir\<close>, whose error is swallowed only when \<open>name\<close> is a directory already.
\<close>

definition split_twice :: "string \<Rightarrow> string \<times> string" where
  "split_twice name =
     (let (head, tail) = path_split name
      in if tail = [] then path_split head else (head, tail))"

definition mkdir_exist_ok :: "filesystem \<Rightarrow> string \<Rightarrow> exn + filesystem" where
  "mkdir_exist_ok disk name =
     (case mkdir disk name of
        Inr disk' \<Rightarrow> Inr disk'
      | Inl e \<Rightarrow> if \<not> isdir disk name then Inl e else Inr disk)"

function makedirs :: "filesystem \<Rightarrow> string \<Rightarrow> exn + filesystem" where
  "makedirs disk name =
     (if fst (split_twice name) \<noteq> [] \<and> snd (split_twice name) \<noteq> []
         \<and> \<not> path_exists disk (fst (split_twice name))
      then (case makedirs disk (fst (split_twice name)) of
              Inl e \<Rightarrow>
                if e = FileExistsError
                then (if snd (split_twice name) = ''.'' then Inr disk
                      else mkdir_exist_ok disk name)
                else Inl e
            | Inr disk' \<Rightarrow>
                if snd (split_twice name) = ''.'' then Inr disk'
                else mkdir_exist_ok disk' name)
      else mkdir_exist_ok disk name)"
  by pat_completeness auto

text \<open>\<open>open(filename, "w")\<close> followed by \<open>f.write(code)\<close>.\<close>

definition write_file :: "filesystem \<Rightarrow> string \<Rightarrow> string \<Rightarrow> exn + filesystem" where
  "write_file disk p data =
     (if p = [] then Inl FileNotFoundError
      else if isdir disk p \<or> last p = CHR ''/'' then Inl IsADirectoryError
      else case parent_ok disk p of
             Some e \<Rightarrow> Inl e
           | None \<Rightarrow> Inr (AList.update p (File data) disk))"

section \<open>Process state and environment\<close>

text \<open>
  The state threaded through the program: the main conversation (the list \<open>messages\<close> that
  \<open>main\<close> owns and \<open>handle_response\<close> receives by reference), the global \<open>file_counter\<close>,
  the disk, how many requests and shell commands have been issued, and the trace.
\<close>

record state =
  messages :: "message list"
  file_counter :: int
  disk :: filesystem
  posts :: nat
  runs :: nat
  trace :: "event list"

definition emit :: "event \<Rightarrow> state \<Rightarrow> state" where
  "emit e st = st\<lparr>trace := trace st @ [e]\<rparr>"

text \<open>
  One HTTP attempt either fails before any line is read (\<open>requests.post\<close> or
  \<open>raise_for_status\<close> raises a \<open>RequestException\<close>), or delivers lines and then ends, cleanly
  or with a \<open>RequestException\<close> raised by \<open>iter_lines\<close>.  A line is empty, or a JSON object
  carrying a text delta, or something that \<open>decode\<close>, \<open>json.loads\<close> or the field accesses
  reject.
\<close>

datatype chunk = Blank | Delta string | Malformed

datatype attempt = Refused string | Streamed "chunk list" "string option"

text \<open>\<open>subprocess.run(..., check=True)\<close>: exit status 0 with the captured standard output, or
  \<open>CalledProcessError\<close> with its rendering and the captured standard error.  What a command
  does to the disk is not followed: nothing reads the disk after a command has run.\<close>

datatype completed = Exit0 string | CalledProcessError string string

text \<open>
  The outside world answers the \<open>n\<close>-th request and the \<open>n\<close>-th shell command; any
  behaviour of endpoint and shell is one such pair of functions.
\<close>

record env =
  transport :: "nat \<Rightarrow> attempt"
  shell :: "nat \<Rightarrow> string \<Rightarrow> completed"

section \<open>\<open>call_ollama_api_stream\<close>\<close>

fun read_stream ::
  "chunk list \<Rightarrow> string option \<Rightarrow> string \<Rightarrow> state \<Rightarrow> (exn + string) \<times> state" where
  "read_stream [] None full_response st = (Inr full_response, st)"
| "read_stream [] (Some e) full_response st = (Inl (RequestException e), st)"
| "read_stream (Blank # cs) fin full_response st = read_stream cs fin full_response st"
| "read_stream (Delta c # cs) fin full_response st =
     read_stream cs fin (full_response @ c) (emit (Print c) st)"
| "read_stream (Malformed # cs) fin full_response st = (Inl JSONDecodeError, st)"

definition post :: "env \<Rightarrow> string \<Rightarrow> message list \<Rightarrow> state \<Rightarrow> (exn + string) \<times> state" where
  "post world model msgs st =
     (let st1 = emit (Post model msgs) (st\<lparr>posts := Suc (posts st)\<rparr>)
      in case transport world (posts st) of
           Refused e \<Rightarrow> (Inl (RequestException e), st1)
         | Streamed cs fin \<Rightarrow> read_stream cs fin [] st1)"

definition retry_message :: "int \<Rightarrow> int \<Rightarrow> string \<Rightarrow> string" where
  "retry_message attempt max_retries e =
     [nl] @ ''Error calling Ollama API (attempt '' @ str_int (attempt + 1) @ ''/''
       @ str_int max_retries @ ''): '' @ e @ [nl]"

text \<open>
  The \<open>for attempt in range(max_retries)\<close> loop; the second argument counts the iterations
  that are left.  Falling off the end of the loop returns \<open>None\<close>.
\<close>

fun attempts ::
  "env \<Rightarrow> nat \<Rightarrow> int \<Rightarrow> string \<Rightarrow> message list \<Rightarrow> int \<Rightarrow> state
     \<Rightarrow> (exn + string option) \<times> state" where
  "attempts world 0 attempt model msgs max_retries st = (Inr None, st)"
| "attempts world (Suc left) attempt model msgs max_retries st =
     (case post world model msgs st of
        (Inr full_response, st1) \<Rightarrow> (Inr (Some full_response), st1)
      | (Inl (RequestException e), st1) \<Rightarrow>
          (let st2 = emit (Print (retry_message attempt max_retries e)) st1
           in if attempt = max_retries - 1 then (Inr None, st2)
              else attempts world left (attempt + 1) model msgs max_retries st2)
      | (Inl other, st1) \<Rightarrow> (Inl other, st1))"

definition call_ollama_api_stream ::
  "env \<Rightarrow> message list \<Rightarrow> string \<Rightarrow> int \<Rightarrow> state \<Rightarrow> (exn + string option) \<times> state" where
  "call_ollama_api_stream world msgs model max_retries st =
     attempts world (nat max_retries) 0 model msgs max_retries st"

section \<open>\<open>handle_response\<close>\<close>

definition auto_filename :: "int \<Rightarrow> string" where
  "auto_filename c = ''generated_py_script_'' @ str_int c @ ''.py''"

text \<open>The \<open>while True\<close> loop that looks for a free automatic name; it returns the name and
  the counter it stopped at.\<close>

function free_name :: "filesystem \<Rightarrow> int \<Rightarrow> string \<times> int" where
  "free_name d c =
     (if \<not> path_exists d (auto_filename c) then (auto_filename c, c)
      else free_name d (c + 1))"
  by pat_completeness auto

text \<open>Texts shown to the user and sent to the model.\<close>

definition quoted :: "string \<Rightarrow> string" where
  "quoted s = [CHR 0x27] @ s @ [CHR 0x27]"

definition run_prompt :: "string \<Rightarrow> string" where
  "run_prompt language = [nl] @ ''Run this '' @ language @ '' code? [y/N]: ''"

definition exec_prompt :: "string \<Rightarrow> string" where
  "exec_prompt run_command = [nl] @ ''Execute: '' @ quoted run_command @ ''? [y/N]: ''"

definition debug_prompt :: string where
  "debug_prompt = [nl] @ ''Debug this error? [y/N]: ''"

definition run_messages :: "string \<Rightarrow> string \<Rightarrow> message list" where
  "run_messages filename language =
     [msg ''system''
        ''Provide a shell command to run the given file, preferring Python execution (e.g., python3 file.py).'',
      msg ''user'' (''Command to run '' @ quoted filename @ '' in '' @ language @ ''?'')]"

definition correction_request :: "string \<Rightarrow> message" where
  "correction_request stderr =
     msg ''user'' (''Command failed: '' @ stderr @ [nl] @ ''Provide corrected command.'')"

text \<open>\<open>input(prompt).strip().lower() != 'y'\<close> is the test of every confirmation.\<close>

definition affirmative :: "string \<Rightarrow> bool" where
  "affirmative line \<longleftrightarrow> lower (strip line) = ''y''"

text \<open>
  The execution and debugging loop (\<open>while True\<close> at the end of \<open>handle_response\<close>).  The
  lines still to be read from standard input are an argument of their own: every iteration
  reads at least one, and \<open>input\<close> raises \<open>EOFError\<close> when none is left.  The result is
  the exception that escaped, if any, the unread lines and the final state.
\<close>

fun exec_loop ::
  "env \<Rightarrow> string \<Rightarrow> string \<Rightarrow> string list \<Rightarrow> state \<Rightarrow> exn option \<times> string list \<times> state" where
  "exec_loop world model run_command [] st =
     (Some EOFError, [], emit (Input (exec_prompt run_command) None) st)"
| "exec_loop world model run_command (confirm # rest) st =
     (let st1 = emit (Input (exec_prompt run_command) (Some confirm)) st
      in if \<not> affirmative confirm then (None, rest, st1)
         else
           (let st2 = emit (Run run_command) (st1\<lparr>runs := Suc (runs st1)\<rparr>)
            in case shell world (runs st1) run_command of
                 Exit0 out \<Rightarrow>
                   (None, rest, emit (Print ([nl] @ ''Success! Output:'' @ [nl] @ '' '' @ out @ [nl])) st2)
               | CalledProcessError e stderr \<Rightarrow>
                   (let st3 = emit (Print ([nl] @ ''Error: '' @ e @ [nl] @ ''Stderr:'' @ [nl]
                                             @ stderr @ [nl])) st2
                    in case rest of
                         [] \<Rightarrow> (Some EOFError, [], emit (Input debug_prompt None) st3)
                       | debug_confirm # rest' \<Rightarrow>
                           (let st4 = emit (Input debug_prompt (Some debug_confirm)) st3
                            in if \<not> affirmative debug_confirm then (None, rest', st4)
                               else
                                 (let debug_messages = messages st4 @ [correction_request stderr];
                                      st5 = emit (Print ([nl] @ ''Debugging: '')) st4
                                  in case call_ollama_api_stream world debug_messages model 3 st5 of
                                       (Inl e, st6) \<Rightarrow> (Some e, rest', st6)
                                     | (Inr debug_response, st6) \<Rightarrow>
                                         if truthy debug_response
                                         then
                                           (let st7 = st6\<lparr>messages := messages st6
                                                        @ [msg ''assistant'' (the debug_response)]\<rparr>;
                                                new_command = snd (snd (extract_code_block (the debug_response)))
                                            in if \<not> truthy new_command
                                               then (None, rest',
                                                     emit (Print ([nl] @ ''No fix provided.'' @ [nl])) st7)
                                               else exec_loop world model (the new_command) rest' st7)
                                         else exec_loop world model run_command rest' st6)))))"

text \<open>
  \<open>handle_response(ai_response, messages, model)\<close>; \<open>messages\<close> and \<open>file_counter\<close> are
  fields of the state.
\<close>

definition save_code :: "string \<Rightarrow> string \<Rightarrow> state \<Rightarrow> exn + state" where
  "save_code filename code st =
     (case makedirs (disk st) (dirname filename) of
        Inl e \<Rightarrow> Inl e
      | Inr d1 \<Rightarrow>
          (case write_file d1 filename code of
             Inl e \<Rightarrow> Inl e
           | Inr d2 \<Rightarrow> Inr (emit (Print ([nl] @ ''Code saved to '' @ filename @ [nl])) (st\<lparr>disk := d2\<rparr>))))"

definition handle_response ::
  "env \<Rightarrow> string \<Rightarrow> string \<Rightarrow> string list \<Rightarrow> state \<Rightarrow> exn option \<times> string list \<times> state" where
  "handle_response world ai_response model stdin st =
     (case extract_code_block ai_response of
        (filename, language, code) \<Rightarrow>
          if \<not> truthy code then (None, stdin, st)
          else
            (let language = (if \<not> truthy language then ''python'' else the language);
                 (filename, st1) =
                    (if \<not> truthy filename
                     then (case free_name (disk st) (file_counter st) of
                             (name, c) \<Rightarrow> (name, st\<lparr>file_counter := c\<rparr>))
                     else (the filename, st))
             in case save_code filename (the code) st1 of
                  Inl e \<Rightarrow> (Some e, stdin, st1)
                | Inr st2 \<Rightarrow>
                    (case stdin of
                       [] \<Rightarrow> (Some EOFError, [], emit (Input (run_prompt language) None) st2)
                     | run_confirm # rest \<Rightarrow>
                         (let st3 = emit (Input (run_prompt language) (Some run_confirm)) st2
                          in if \<not> affirmative run_confirm then (None, rest, st3)
                             else
                               (let st4 = emit (Print ([nl] @ ''Generating run command: '')) st3
                                in case call_ollama_api_stream world (run_messages filename language)
                                          model 3 st4 of
                                     (Inl e, st5) \<Rightarrow> (Some e, rest, st5)
                                   | (Inr run_command_response, st5) \<Rightarrow>
                                       if \<not> truthy run_command_response then (None, rest, st5)
                                       else
                                         (let run_command =
                                                snd (snd (extract_code_block (the run_command_response)))
                                          in if \<not> truthy run_command
                                             then (None, rest,
                                                   emit (Print ([nl] @ ''No valid run command generated.''
                                                                  @ [nl])) st5)
                                             else exec_loop world model (the run_command) rest st5))))))"

text \<open>
  Parts of \<open>handle_response\<close> under names of their own, for the proofs: the name and the state
  after the choice of a file name, and everything that follows a successful save.
\<close>

definition chosen_name :: "string option \<Rightarrow> state \<Rightarrow> string" where
  "chosen_name filename st =
     (if \<not> truthy filename then fst (free_name (disk st) (file_counter st)) else the filename)"

definition chosen_state :: "string option \<Rightarrow> state \<Rightarrow> state" where
  "chosen_state filename st =
     (if \<not> truthy filename then st\<lparr>file_counter := snd (free_name (disk st) (file_counter st))\<rparr>
      else st)"

definition after_save ::
  "env \<Rightarrow> string \<Rightarrow> string \<Rightarrow> string \<Rightarrow> string list \<Rightarrow> state \<Rightarrow> exn option \<times> string list \<times> state" where
  "after_save world model filename language stdin st2 =
     (case stdin of
        [] \<Rightarrow> (Some EOFError, [], emit (Input (run_prompt language) None) st2)
      | run_confirm # rest \<Rightarrow>
          (let st3 = emit (Input (run_prompt language) (Some run_confirm)) st2
           in if \<not> affirmative run_confirm then (None, rest, st3)
              else
                (let st4 = emit (Print ([nl] @ ''Generating run command: '')) st3
                 in case call_ollama_api_stream world (run_messages filename language) model 3 st4 of
                      (Inl e, st5) \<Rightarrow> (Some e, rest, st5)
                    | (Inr run_command_response, st5) \<Rightarrow>
                        if \<not> truthy run_command_response then (None, rest, st5)
                        else
                          (let run_command = snd (snd (extract_code_block (the run_command_response)))
                           in if \<not> truthy run_command
                              then (None, rest,
                                    emit (Print ([nl] @ ''No valid run command generated.'' @ [nl])) st5)
                              else exec_loop world model (the run_command) rest st5))))"

section \<open>Vocabulary of the properties\<close>

text \<open>
  An attempt fails at the transport level when the request is refused, or when the stream
  breaks before any line has been rejected.
\<close>

fun transport_failure :: "attempt \<Rightarrow> bool" where
  "transport_failure (Refused e) = True"
| "transport_failure (Streamed cs fin) = (fin \<noteq> None \<and> Malformed \<notin> set cs)"

text \<open>Events that neither read input nor run a command.\<close>

fun quiet :: "event \<Rightarrow> bool" where
  "quiet (Print s) = True"
| "quiet (Post m ms) = True"
| "quiet (Input p a) = False"
| "quiet (Run c) = False"

text \<open>
  \<open>gated prev evs\<close>: every command run in \<open>evs\<close> comes right after a prompt that showed this
  very command and was answered affirmatively; \<open>prev\<close> is the event before \<open>evs\<close>, if any.
\<close>

fun gated :: "event option \<Rightarrow> event list \<Rightarrow> bool" where
  "gated prev [] = True"
| "gated prev (Run c # es) =
     ((case prev of
         Some (Input p (Some a)) \<Rightarrow> p = exec_prompt c \<and> affirmative a
       | _ \<Rightarrow> False)
      \<and> gated (Some (Run c)) es)"
| "gated prev (e # es) = gated (Some e) es"

text \<open>\<open>declines_end evs\<close>: a prompt whose answer is missing or not affirmative is the last
  event.\<close>

fun declines_end :: "event list \<Rightarrow> bool" where
  "declines_end [] = True"
| "declines_end (Input p a # es) =
     (((case a of Some l \<Rightarrow> affirmative l | None \<Rightarrow> False) \<or> es = []) \<and> declines_end es)"
| "declines_end (e # es) = declines_end es"

text \<open>The number of debug offers that were accepted.\<close>

fun debug_accepted :: "event \<Rightarrow> bool" where
  "debug_accepted (Input p (Some l)) = (p = debug_prompt \<and> affirmative l)"
| "debug_accepted e = False"

definition debug_rounds :: "event list \<Rightarrow> nat" where
  "debug_rounds evs = length (filter debug_accepted evs)"

text \<open>The requests posted, in order.\<close>

fun posted :: "event list \<Rightarrow> message list list" where
  "posted [] = []"
| "posted (Post m ms # es) = ms # posted es"
| "posted (e # es) = posted es"

text \<open>The events of one round of the loop in which the command fails and the debug offer is
  answered, up to the announcement of the corrective request.\<close>

definition failure_report :: "string \<Rightarrow> string \<Rightarrow> string" where
  "failure_report e stderr = [nl] @ ''Error: '' @ e @ [nl] @ ''Stderr:'' @ [nl] @ stderr @ [nl]"

definition failed_run :: "string \<Rightarrow> string \<Rightarrow> string \<Rightarrow> string \<Rightarrow> event list" where
  "failed_run run_command confirm e stderr =
     [Input (exec_prompt run_command) (Some confirm), Run run_command,
      Print (failure_report e stderr)]"

definition debug_start :: "string \<Rightarrow> event list" where
  "debug_start debug_confirm =
     [Input debug_prompt (Some debug_confirm), Print ([nl] @ ''Debugging: '')]"

text \<open>
  What a run of the loop may do to the state: it appends assistant messages to the
  conversation, at most one for each accepted debug offer, issues requests and commands, and
  extends the trace by events that respect the confirmation gates.  Counter and disk stay.
\<close>

definition loop_effect :: "state \<Rightarrow> state \<Rightarrow> bool" where
  "loop_effect st st' \<longleftrightarrow>
     (\<exists>n r evs added.
        st' = st\<lparr>messages := messages st @ added, posts := posts st + n, runs := runs st + r,
                 trace := trace st @ evs\<rparr>
        \<and> (\<forall>prev. gated prev evs) \<and> declines_end evs \<and> evs \<noteq> []
        \<and> (\<forall>m\<in>set added. role m = ''assistant'' \<and> images m = None \<and> content m \<noteq> [])
        \<and> length added \<le> debug_rounds evs)"

section \<open>Concrete runs\<close>

text \<open>Inputs on which the theorems below are exercised.\<close>

definition unreachable :: env where
  "unreachable = \<lparr>transport = (\<lambda>n. if n = 1 then Streamed [Delta ''par''] (Some ''reset'')
                                     else Refused ''refused''),
                  shell = (\<lambda>n c. Exit0 [])\<rparr>"

definition fresh :: state where
  "fresh = \<lparr>messages = [msg ''user'' ''hello''], file_counter = 1, disk = [],
            posts = 0, runs = 0, trace = []\<rparr>"

definition garbled :: env where
  "garbled = \<lparr>transport = (\<lambda>n. if n = 0 then Refused ''timeout''
                                 else Streamed [Delta ''pri'', Blank, Malformed, Delta ''nt''] None),
              shell = (\<lambda>n c. Exit0 [])\<rparr>"

definition named_reply :: string where
  "named_reply = ''filename: out/a.py'' @ [nl] @ ''```python'' @ [nl] @ ''print(1)'' @ [nl] @ ''```''"

definition command_reply :: string where
  "command_reply = ''```bash'' @ [nl] @ ''python3 out/a.py'' @ [nl] @ ''```''"

definition fix_reply :: string where
  "fix_reply = ''Try this: ```sh'' @ [nl] @ ''python out/a.py'' @ [nl] @ ''```''"

definition session :: state where
  "session = \<lparr>messages = [msg ''system'' ''You are a helpful assistant.'',
                          msg ''user'' ''print one'', msg ''assistant'' named_reply],
              file_counter = 1, disk = [], posts = 0, runs = 0, trace = []\<rparr>"

text \<open>An endpoint that answers the first two requests and is down afterwards, and a shell in
  which every command fails.\<close>

definition flaky :: env where
  "flaky = \<lparr>transport = (\<lambda>n. if n = 0 then Streamed [Delta command_reply] None
                               else if n = 1 then Streamed [Delta fix_reply] None
                               else Refused ''connection refused''),
            shell = (\<lambda>n c. CalledProcessError ''exit status 1'' ''boom'')\<rparr>"

text \<open>An endpoint that is down, with the same shell.\<close>

definition offline :: env where
  "offline = \<lparr>transport = (\<lambda>n. Refused ''connection refused''),
              shell = (\<lambda>n c. CalledProcessError ''exit status 1'' ''boom'')\<rparr>"

text \<open>A reply with two fenced blocks, and one whose last line is a file name directive.\<close>

definition two_blocks :: string where
  "two_blocks = ''First: ```Python'' @ [nl] @ '' print(1) '' @ [nl] @ ''``` then ```bash'' @ [nl]
                  @ ''ls'' @ [nl] @ ''```''"

definition trailing_directive :: string where
  "trailing_directive = ''```python'' @ [nl] @ ''print(1)'' @ [nl] @ ''```'' @ [nl] @ ''filename: run.py''"

text \<open>The reply of the specification's own example, a reply without a directive, and a disk
  on which \<open>out\<close> is a regular file.\<close>

definition bare_reply :: string where
  "bare_reply = ''filename: run.py'' @ [nl] @ ''```python'' @ [nl] @ ''print(1)'' @ [nl] @ ''```''"

definition unnamed_reply :: string where
  "unnamed_reply = ''```python'' @ [nl] @ ''print(1)'' @ [nl] @ ''```''"

definition blocked :: state where
  "blocked = session\<lparr>disk := [(''out'', File ''notes'')]\<rparr>"


lemma length_rstrip_slash: "length (rstrip_slash s) \<le> length s"
proof -
  have "length (dropWhile (\<lambda>c. c = CHR ''/'') (rev s)) \<le> length (rev s)"
    by (rule length_dropWhile_le)
  then show ?thesis by (simp add: rstrip_slash_def)
qed

lemma length_fst_path_split: "length (fst (path_split p)) \<le> length p"
proof -
  define i where "i = length p - length (takeWhile (\<lambda>c. c \<noteq> CHR ''/'') (rev p))"
  have "length (rstrip_slash (take i p)) \<le> length p"
    using length_rstrip_slash [of "take i p"] by simp
  then show ?thesis
    by (simp add: path_split_def Let_def i_def)
qed

lemma length_fst_path_split_less:
  assumes "snd (path_split p) \<noteq> []"
  shows "length (fst (path_split p)) < length p"
proof -
  define i where "i = length p - length (takeWhile (\<lambda>c. c \<noteq> CHR ''/'') (rev p))"
  from assms have "drop i p \<noteq> []"
    by (simp add: path_split_def Let_def i_def)
  then have "i < length p" by simp
  moreover have "length (rstrip_slash (take i p)) \<le> i"
    using length_rstrip_slash [of "take i p"] by simp
  ultimately show ?thesis
    by (simp add: path_split_def Let_def i_def)
qed

lemma length_fst_split_twice:
  assumes "snd (split_twice name) \<noteq> []"
  shows "length (fst (split_twice name)) < length name"
proof (cases "snd (path_split name) = []")
  case True
  then have eq: "split_twice name = path_split (fst (path_split name))"
    by (simp add: split_twice_def split_beta)
  with assms have "length (fst (split_twice name)) < length (fst (path_split name))"
    using length_fst_path_split_less [of "fst (path_split name)"] by simp
  with length_fst_path_split [of name] show ?thesis by simp
next
  case False
  then have "split_twice name = path_split name"
    by (simp add: split_twice_def split_beta)
  with False show ?thesis
    using length_fst_path_split_less [of name] by simp
qed

termination makedirs
  by (relation "measure (\<lambda>(disk, name). length name)") (simp_all add: length_fst_split_twice)

declare makedirs.simps [simp del]


subsection \<open>Decimal rendering is injective\<close>

lemma digit_val_digit: "d < 10 \<Longrightarrow> digit_val (digit d) = d"
  by (simp add: digit_val_def digit_def)

lemma number_of_snoc: "number_of (s @ [c]) = 10 * number_of s + digit_val c"
  by (simp add: number_of_def)

lemma number_of_str_nat: "number_of (str_nat n) = n"
proof (induction n rule: str_nat.induct)
  case (1 n)
  show ?case
  proof (cases "n < 10")
    case True
    then show ?thesis
      by (subst str_nat.simps) (simp add: number_of_def digit_val_digit)
  next
    case False
    with "1.IH" have "number_of (str_nat (n div 10)) = n div 10" by simp
    with False show ?thesis
      by (subst str_nat.simps) (simp add: number_of_snoc digit_val_digit)
  qed
qed

lemma str_nat_inj: "str_nat a = str_nat b \<Longrightarrow> a = b"
  by (metis number_of_str_nat)

lemma digit_not_minus: "d < 10 \<Longrightarrow> digit d \<noteq> CHR ''-''"
proof
  assume "d < 10" and "digit d = CHR ''-''"
  then have "(of_char (digit d) :: nat) = of_char (CHR ''-'')" by simp
  with \<open>d < 10\<close> show False
    by (simp add: digit_def)
qed

lemma str_nat_not_minus: "str_nat n \<noteq> [] \<and> hd (str_nat n) \<noteq> CHR ''-''"
proof (induction n rule: str_nat.induct)
  case (1 n)
  show ?case
  proof (cases "n < 10")
    case True
    then show ?thesis
      by (subst (1 2) str_nat.simps) (simp add: digit_not_minus)
  next
    case False
    with "1.IH" have "str_nat (n div 10) \<noteq> [] \<and> hd (str_nat (n div 10)) \<noteq> CHR ''-''"
      by simp
    with False show ?thesis
      by (subst (1 2) str_nat.simps) simp
  qed
qed

lemma str_int_inj: "str_int a = str_int b \<Longrightarrow> a = b"
proof -
  assume eq: "str_int a = str_int b"
  have neg: "str_int i = CHR ''-'' # str_nat (nat (- i))" if "i < 0" for i
    using that by (simp add: str_int_def)
  have pos: "str_int i = str_nat (nat i)" if "\<not> i < 0" for i
    using that by (simp add: str_int_def)
  show "a = b"
  proof (cases "a < 0")
    case a: True
    show ?thesis
    proof (cases "b < 0")
      case True
      with a eq have "str_nat (nat (- a)) = str_nat (nat (- b))"
        by (simp add: neg)
      then have "nat (- a) = nat (- b)" by (rule str_nat_inj)
      with a True show ?thesis by simp
    next
      case False
      with a eq have "hd (str_nat (nat b)) = CHR ''-''"
        by (simp add: neg pos) (metis list.sel(1))
      with str_nat_not_minus [of "nat b"] show ?thesis by simp
    qed
  next
    case a: False
    show ?thesis
    proof (cases "b < 0")
      case True
      with a eq have "hd (str_nat (nat a)) = CHR ''-''"
        by (simp add: neg pos)
      with str_nat_not_minus [of "nat a"] show ?thesis by simp
    next
      case False
      with a eq have "str_nat (nat a) = str_nat (nat b)"
        by (simp add: pos)
      then have "nat a = nat b" by (rule str_nat_inj)
      with a False show ?thesis by simp
    qed
  qed
qed

lemma auto_filename_inj: "auto_filename a = auto_filename b \<Longrightarrow> a = b"
  by (simp add: auto_filename_def str_int_inj)

subsection \<open>The search for a free name stops\<close>

lemma canon_auto_filename: "canon (auto_filename c) = auto_filename c"
  by (simp add: canon_def auto_filename_def rstrip_slash_def)

lemma path_exists_auto_filename:
  "path_exists d (auto_filename c) \<longleftrightarrow> auto_filename c \<in> fst ` set d"
proof -
  have "auto_filename c \<noteq> []" "auto_filename c \<noteq> ''/''"
    by (simp_all add: auto_filename_def)
  then show ?thesis
    by (simp add: path_exists_def canon_auto_filename map_of_eq_None_iff)
qed

lemma finite_taken_names: "finite {k. c \<le> k \<and> path_exists d (auto_filename k)}"
proof -
  have "finite (auto_filename -` (fst ` set d))"
    by (rule finite_vimageI) (auto simp: inj_on_def dest: auto_filename_inj)
  moreover have "{k. c \<le> k \<and> path_exists d (auto_filename k)} \<subseteq> auto_filename -` (fst ` set d)"
    by (auto simp: path_exists_auto_filename)
  ultimately show ?thesis by (rule rev_finite_subset)
qed

lemma taken_names_decrease:
  assumes "path_exists d (auto_filename c)"
  shows "card {k. c + 1 \<le> k \<and> path_exists d (auto_filename k)}
           < card {k. c \<le> k \<and> path_exists d (auto_filename k)}"
proof (rule psubset_card_mono)
  show "finite {k. c \<le> k \<and> path_exists d (auto_filename k)}"
    by (rule finite_taken_names)
  have "c \<in> {k. c \<le> k \<and> path_exists d (auto_filename k)}"
    using assms by simp
  moreover have "c \<notin> {k. c + 1 \<le> k \<and> path_exists d (auto_filename k)}"
    by simp
  moreover have "{k. c + 1 \<le> k \<and> path_exists d (auto_filename k)}
           \<subseteq> {k. c \<le> k \<and> path_exists d (auto_filename k)}"
    by auto
  ultimately show "{k. c + 1 \<le> k \<and> path_exists d (auto_filename k)}
           \<subset> {k. c \<le> k \<and> path_exists d (auto_filename k)}"
    by blast
qed

termination free_name
  by (relation "measure (\<lambda>(d, c). card {k. c \<le> k \<and> path_exists d (auto_filename k)})")
     (simp_all add: taken_names_decrease)

declare free_name.simps [simp del]


section \<open>Facts about the completion client\<close>

lemma posted_append: "posted (xs @ ys) = posted xs @ posted ys"
  by (induction xs rule: posted.induct) simp_all

lemma read_stream_malformed:
  "Malformed \<in> set cs \<Longrightarrow> fst (read_stream cs fin full st) = Inl JSONDecodeError"
  by (induction cs fin full st rule: read_stream.induct) simp_all

lemma read_stream_broken:
  "Malformed \<notin> set cs \<Longrightarrow> fst (read_stream cs (Some e) full st) = Inl (RequestException e)"
  by (induction cs "Some e" full st rule: read_stream.induct) simp_all

lemma read_stream_frame:
  "\<exists>evs. snd (read_stream cs fin full st) = st\<lparr>trace := trace st @ evs\<rparr>
        \<and> list_all quiet evs \<and> posted evs = []"
proof (induction cs fin full st rule: read_stream.induct)
  case (1 full st)
  show ?case by (intro exI [of _ "[]"]) simp
next
  case (2 e full st)
  show ?case by (intro exI [of _ "[]"]) simp
next
  case (4 c cs fin full st)
  then obtain evs where
    "snd (read_stream cs fin (full @ c) (emit (Print c) st))
       = (emit (Print c) st)\<lparr>trace := trace (emit (Print c) st) @ evs\<rparr>"
    "list_all quiet evs" "posted evs = []"
    by auto
  then show ?case
    by (intro exI [of _ "Print c # evs"]) (simp add: emit_def)
next
  case (5 cs fin full st)
  show ?case by (intro exI [of _ "[]"]) simp
qed simp_all

lemma post_frame:
  "\<exists>evs. snd (post world model msgs st)
            = st\<lparr>posts := Suc (posts st), trace := trace st @ Post model msgs # evs\<rparr>
        \<and> list_all quiet evs \<and> posted evs = []"
proof (cases "transport world (posts st)")
  case (Refused e)
  then show ?thesis
    by (intro exI [of _ "[]"]) (simp add: post_def emit_def)
next
  case (Streamed cs fin)
  obtain evs where
    "snd (read_stream cs fin [] (emit (Post model msgs) (st\<lparr>posts := Suc (posts st)\<rparr>)))
       = (emit (Post model msgs) (st\<lparr>posts := Suc (posts st)\<rparr>))
           \<lparr>trace := trace (emit (Post model msgs) (st\<lparr>posts := Suc (posts st)\<rparr>)) @ evs\<rparr>"
    "list_all quiet evs" "posted evs = []"
    using read_stream_frame by blast
  with Streamed show ?thesis
    by (intro exI [of _ evs]) (simp add: post_def emit_def)
qed

lemma post_transport_failure:
  assumes "transport_failure (transport world (posts st))"
  shows "\<exists>e. fst (post world model msgs st) = Inl (RequestException e)"
proof (cases "transport world (posts st)")
  case (Refused e)
  then show ?thesis by (simp add: post_def)
next
  case (Streamed cs fin)
  with assms obtain e where "fin = Some e" and "Malformed \<notin> set cs" by auto
  with Streamed show ?thesis
    by (simp add: post_def read_stream_broken)
qed

lemma post_malformed:
  assumes "transport world (posts st) = Streamed cs fin" and "Malformed \<in> set cs"
  shows "fst (post world model msgs st) = Inl JSONDecodeError"
  using assms by (simp add: post_def read_stream_malformed)

lemma shift_index:
  assumes "\<forall>i<Suc n. P (p + i)"
  shows "\<forall>i<n. P (Suc p + i)"
proof (intro allI impI)
  fix i
  assume "i < n"
  then have "Suc i < Suc n" by simp
  with assms have "P (p + Suc i)" by blast
  then show "P (Suc p + i)" by simp
qed

text \<open>Every attempt of the loop fails at the transport level: the loop runs to its end.\<close>

lemma attempts_all_fail:
  assumes "\<forall>i<left. transport_failure (transport world (posts st + i))"
    and "attempt + int left = max_retries"
  shows "\<exists>evs. attempts world left attempt model msgs max_retries st
                 = (Inr None, st\<lparr>posts := posts st + left, trace := trace st @ evs\<rparr>)
             \<and> list_all quiet evs \<and> posted evs = replicate left msgs"
  using assms
proof (induction left arbitrary: attempt st)
  case 0
  show ?case by (intro exI [of _ "[]"]) simp
next
  case (Suc left)
  from Suc.prems(1) have "transport_failure (transport world (posts st))"
    by (metis add.right_neutral zero_less_Suc)
  then obtain e where e: "fst (post world model msgs st) = Inl (RequestException e)"
    using post_transport_failure by blast
  obtain evs1 where st1: "snd (post world model msgs st)
        = st\<lparr>posts := Suc (posts st), trace := trace st @ Post model msgs # evs1\<rparr>"
    and q1: "list_all quiet evs1" "posted evs1 = []"
    using post_frame by blast
  define st2 where "st2 = emit (Print (retry_message attempt max_retries e))
                            (st\<lparr>posts := Suc (posts st), trace := trace st @ Post model msgs # evs1\<rparr>)"
  from e st1 have p: "post world model msgs st
        = (Inl (RequestException e), st\<lparr>posts := Suc (posts st), trace := trace st @ Post model msgs # evs1\<rparr>)"
    by (metis prod.collapse)
  show ?case
  proof (cases "attempt = max_retries - 1")
    case True
    with Suc.prems(2) have "left = 0" by simp
    with True p q1 show ?thesis
      by (intro exI [of _ "Post model msgs # evs1 @ [Print (retry_message attempt max_retries e)]"])
         (simp add: emit_def posted_append)
  next
    case False
    have "posts st2 = Suc (posts st)" by (simp add: st2_def emit_def)
    then have "\<forall>i<left. transport_failure (transport world (posts st2 + i))"
      using shift_index [OF Suc.prems(1)] by simp
    moreover have "attempt + 1 + int left = max_retries"
      using Suc.prems(2) by simp
    ultimately obtain evs2 where
      r: "attempts world left (attempt + 1) model msgs max_retries st2
            = (Inr None, st2\<lparr>posts := posts st2 + left, trace := trace st2 @ evs2\<rparr>)"
      and q2: "list_all quiet evs2" "posted evs2 = replicate left msgs"
      using Suc.IH by blast
    from False p r q1 q2 show ?thesis
      by (intro exI [of _ "Post model msgs # evs1 @ Print (retry_message attempt max_retries e) # evs2"])
         (simp add: st2_def emit_def posted_append)
  qed
qed

text \<open>Attempts fail at the transport level until one delivers a line that is rejected.\<close>

lemma attempts_malformed:
  assumes "\<forall>i<k. transport_failure (transport world (posts st + i))"
    and "transport world (posts st + k) = Streamed cs fin" and "Malformed \<in> set cs"
    and "k < left" and "attempt + int left = max_retries"
  shows "fst (attempts world left attempt model msgs max_retries st) = Inl JSONDecodeError
       \<and> posts (snd (attempts world left attempt model msgs max_retries st)) = posts st + Suc k"
  using assms
proof (induction k arbitrary: left attempt st)
  case 0
  then obtain left' where left: "left = Suc left'" by (cases left) auto
  from "0.prems" have f: "fst (post world model msgs st) = Inl JSONDecodeError"
    using post_malformed [of world st cs fin] by simp
  obtain evs1 where st1: "snd (post world model msgs st)
        = st\<lparr>posts := Suc (posts st), trace := trace st @ Post model msgs # evs1\<rparr>"
    using post_frame by blast
  from f st1 have "post world model msgs st
        = (Inl JSONDecodeError, st\<lparr>posts := Suc (posts st), trace := trace st @ Post model msgs # evs1\<rparr>)"
    by (metis prod.collapse)
  with left show ?case by simp
next
  case (Suc k)
  then obtain left' where left: "left = Suc left'" by (cases left) auto
  from Suc.prems(1) have "transport_failure (transport world (posts st))"
    by (metis add.right_neutral zero_less_Suc)
  then obtain e where e: "fst (post world model msgs st) = Inl (RequestException e)"
    using post_transport_failure by blast
  obtain evs1 where st1: "snd (post world model msgs st)
        = st\<lparr>posts := Suc (posts st), trace := trace st @ Post model msgs # evs1\<rparr>"
    using post_frame by blast
  define st2 where "st2 = emit (Print (retry_message attempt max_retries e))
                            (st\<lparr>posts := Suc (posts st), trace := trace st @ Post model msgs # evs1\<rparr>)"
  from e st1 have p: "post world model msgs st
        = (Inl (RequestException e), st\<lparr>posts := Suc (posts st), trace := trace st @ Post model msgs # evs1\<rparr>)"
    by (metis prod.collapse)
  have ps: "posts st2 = Suc (posts st)" by (simp add: st2_def emit_def)
  from Suc.prems(4,5) left have ne: "attempt \<noteq> max_retries - 1" by simp
  have "\<forall>i<k. transport_failure (transport world (posts st2 + i))"
    using shift_index [OF Suc.prems(1)] by (simp add: ps)
  moreover have "transport world (posts st2 + k) = Streamed cs fin"
    using Suc.prems(2) by (simp add: ps)
  moreover have "k < left'" using Suc.prems(4) left by simp
  moreover have "attempt + 1 + int left' = max_retries"
    using Suc.prems(5) left by simp
  ultimately have "fst (attempts world left' (attempt + 1) model msgs max_retries st2) = Inl JSONDecodeError
       \<and> posts (snd (attempts world left' (attempt + 1) model msgs max_retries st2)) = posts st2 + Suc k"
    using Suc.IH Suc.prems(3) by blast
  with left p ne show ?case
    by (simp add: st2_def [symmetric] ps)
qed

lemma attempts_frame:
  "\<exists>n evs. snd (attempts world left attempt model msgs max_retries st)
              = st\<lparr>posts := posts st + n, trace := trace st @ evs\<rparr>
         \<and> list_all quiet evs"
proof (induction left arbitrary: attempt st)
  case 0
  show ?case by (intro exI [of _ 0] exI [of _ "[]"]) simp
next
  case (Suc left)
  obtain evs1 where st1: "snd (post world model msgs st)
        = st\<lparr>posts := Suc (posts st), trace := trace st @ Post model msgs # evs1\<rparr>"
    and q1: "list_all quiet evs1"
    using post_frame by blast
  define st1 where "st1 = st\<lparr>posts := Suc (posts st), trace := trace st @ Post model msgs # evs1\<rparr>"
  show ?case
  proof (cases "fst (post world model msgs st)")
    case (Inr full)
    with st1 have "post world model msgs st = (Inr full, st1)"
      by (metis prod.collapse st1_def)
    with q1 show ?thesis
      by (intro exI [of _ 1] exI [of _ "Post model msgs # evs1"]) (simp add: st1_def)
  next
    case (Inl x)
    with st1 have p: "post world model msgs st = (Inl x, st1)"
      by (metis prod.collapse st1_def)
    show ?thesis
    proof (cases x)
      case (RequestException e)
      define st2 where "st2 = emit (Print (retry_message attempt max_retries e)) st1"
      show ?thesis
      proof (cases "attempt = max_retries - 1")
        case True
        with p RequestException q1 show ?thesis
          by (intro exI [of _ 1]
                exI [of _ "Post model msgs # evs1 @ [Print (retry_message attempt max_retries e)]"])
             (simp add: st1_def emit_def)
      next
        case False
        obtain n evs2 where
          r: "snd (attempts world left (attempt + 1) model msgs max_retries st2)
                = st2\<lparr>posts := posts st2 + n, trace := trace st2 @ evs2\<rparr>"
          and q2: "list_all quiet evs2"
          using Suc.IH by blast
        from False p r q1 q2 RequestException show ?thesis
          by (intro exI [of _ "Suc n"]
                exI [of _ "Post model msgs # evs1 @ Print (retry_message attempt max_retries e) # evs2"])
             (simp add: st2_def [symmetric], simp add: st2_def st1_def emit_def)
      qed
    qed (use p q1 in \<open>(intro exI [of _ 1] exI [of _ "Post model msgs # evs1"], simp add: st1_def)+\<close>)
  qed
qed

lemma call_frame:
  "\<exists>n evs. snd (call_ollama_api_stream world msgs model max_retries st)
              = st\<lparr>posts := posts st + n, trace := trace st @ evs\<rparr>
         \<and> list_all quiet evs"
  unfolding call_ollama_api_stream_def by (rule attempts_frame)


section \<open>The completion client: retries and malformed increments\<close>

lemma empty_reply_is_not_failure:
  assumes "transport world (posts st) = Streamed [] None" and "0 < max_retries"
  shows "fst (call_ollama_api_stream world msgs model max_retries st) = Inr (Some [])"
proof -
  from assms(2) obtain left where "nat max_retries = Suc left"
    by (cases "nat max_retries") auto
  with assms(1) show ?thesis
    by (simp add: call_ollama_api_stream_def post_def)
qed

text \<open>
  Claim C5.  When every attempt of a completion call fails at the transport level, the
  client makes exactly \<open>max_retries\<close> attempts, each posting the same request, and returns
  \<open>None\<close>; a reply that is empty but successful is \<open>Some []\<close>, so the two cannot be
  confused.
\<close>

theorem retries_exhausted:
  assumes "0 \<le> max_retries"
    and "\<forall>i < nat max_retries. transport_failure (transport world (posts st + i))"
  shows "\<exists>evs. call_ollama_api_stream world msgs model max_retries st
                 = (Inr None, st\<lparr>posts := posts st + nat max_retries, trace := trace st @ evs\<rparr>)
             \<and> posted evs = replicate (nat max_retries) msgs
             \<and> int (length (posted evs)) = max_retries
             \<and> (\<forall>world'. transport world' (posts st) = Streamed [] None \<longrightarrow> 0 < max_retries \<longrightarrow>
                   fst (call_ollama_api_stream world' msgs model max_retries st) = Inr (Some []))"
proof -
  from assms(1) have "0 + int (nat max_retries) = max_retries" by simp
  with assms(2) obtain evs where
    "attempts world (nat max_retries) 0 model msgs max_retries st
       = (Inr None, st\<lparr>posts := posts st + nat max_retries, trace := trace st @ evs\<rparr>)"
    and "posted evs = replicate (nat max_retries) msgs"
    using attempts_all_fail [of "nat max_retries" world st 0 max_retries model msgs] by blast
  then have "call_ollama_api_stream world msgs model max_retries st
       = (Inr None, st\<lparr>posts := posts st + nat max_retries, trace := trace st @ evs\<rparr>)"
    and "posted evs = replicate (nat max_retries) msgs"
    by (simp_all add: call_ollama_api_stream_def)
  with assms(1) show ?thesis
    by (intro exI [of _ evs]) (simp add: empty_reply_is_not_failure)
qed

theorem retries_exhausted_witness:
  "(0::int) \<le> 3
   \<and> transport_failure (transport unreachable (posts fresh + 0))
   \<and> transport_failure (transport unreachable (posts fresh + 1))
   \<and> transport_failure (transport unreachable (posts fresh + 2))
   \<and> fst (call_ollama_api_stream unreachable [msg ''user'' ''hello''] ''gemma3:latest'' 3 fresh)
       = Inr None
   \<and> posts (snd (call_ollama_api_stream unreachable [msg ''user'' ''hello''] ''gemma3:latest'' 3 fresh))
       = 3
   \<and> fst (call_ollama_api_stream (unreachable\<lparr>transport := (\<lambda>n. Streamed [] None)\<rparr>)
             [msg ''user'' ''hello''] ''gemma3:latest'' 3 fresh) = Inr (Some [])"
proof -
  have h: "\<forall>i < nat 3. transport_failure (transport unreachable (posts fresh + i))"
    by (simp add: unreachable_def)
  have p: "posts fresh = 0" by (simp add: fresh_def)
  from retries_exhausted [of 3 unreachable fresh "[msg ''user'' ''hello'']" "''gemma3:latest''"] h
  obtain evs where
    r: "call_ollama_api_stream unreachable [msg ''user'' ''hello''] ''gemma3:latest'' 3 fresh
          = (Inr None, fresh\<lparr>posts := posts fresh + nat 3, trace := trace fresh @ evs\<rparr>)"
    and e: "\<forall>world'. transport world' (posts fresh) = Streamed [] None \<longrightarrow> (0::int) < 3 \<longrightarrow>
              fst (call_ollama_api_stream world' [msg ''user'' ''hello''] ''gemma3:latest'' 3 fresh)
                = Inr (Some [])"
    by auto
  have "transport (unreachable\<lparr>transport := (\<lambda>n. Streamed [] None)\<rparr>) (posts fresh) = Streamed [] None"
    by simp
  with e have "fst (call_ollama_api_stream (unreachable\<lparr>transport := (\<lambda>n. Streamed [] None)\<rparr>)
             [msg ''user'' ''hello''] ''gemma3:latest'' 3 fresh) = Inr (Some [])"
    by simp
  moreover have "transport_failure (transport unreachable (posts fresh + 0))"
    "transport_failure (transport unreachable (posts fresh + 1))"
    "transport_failure (transport unreachable (posts fresh + 2))"
    by (simp_all add: unreachable_def)
  ultimately show ?thesis using r p by simp
qed

text \<open>
  Claim C9.  When the attempts before the \<open>k\<close>-th fail at the transport level and the
  \<open>k\<close>-th delivers a line that cannot be read as a delta, the call raises the decoding
  error: it is neither retried (the attempt is the last one made) nor turned into \<open>None\<close>
  or a reply.
\<close>

theorem malformed_increment_escapes:
  assumes "\<forall>i<k. transport_failure (transport world (posts st + i))"
    and "transport world (posts st + k) = Streamed cs fin"
    and "Malformed \<in> set cs"
    and "int k < max_retries"
  shows "fst (call_ollama_api_stream world msgs model max_retries st) = Inl JSONDecodeError
       \<and> posts (snd (call_ollama_api_stream world msgs model max_retries st)) = posts st + Suc k"
proof -
  from assms(4) have "k < nat max_retries" and "0 + int (nat max_retries) = max_retries"
    by simp_all
  with assms(1-3) show ?thesis
    unfolding call_ollama_api_stream_def
    by (intro attempts_malformed [of k world st cs fin]) simp_all
qed

theorem malformed_increment_escapes_witness:
  "transport_failure (transport garbled (posts fresh + 0))
   \<and> transport garbled (posts fresh + 1) = Streamed [Delta ''pri'', Blank, Malformed, Delta ''nt''] None
   \<and> Malformed \<in> set [Delta ''pri'', Blank, Malformed, Delta ''nt'']
   \<and> int 1 < 3
   \<and> fst (call_ollama_api_stream garbled [msg ''user'' ''hello''] ''gemma3:latest'' 3 fresh)
       = Inl JSONDecodeError
   \<and> posts (snd (call_ollama_api_stream garbled [msg ''user'' ''hello''] ''gemma3:latest'' 3 fresh)) = 2"
proof -
  have h1: "\<forall>i<1. transport_failure (transport garbled (posts fresh + i))"
    by (simp add: garbled_def fresh_def)
  have h2: "transport garbled (posts fresh + 1)
              = Streamed [Delta ''pri'', Blank, Malformed, Delta ''nt''] None"
    by (simp add: garbled_def fresh_def)
  have h3: "Malformed \<in> set [Delta ''pri'', Blank, Malformed, Delta ''nt'']" by simp
  have h4: "int 1 < 3" by simp
  have p: "posts fresh = 0" by (simp add: fresh_def)
  have h0: "transport_failure (transport garbled (posts fresh + 0))"
    by (simp add: garbled_def fresh_def)
  from malformed_increment_escapes [OF h1 h2 h3 h4, of "[msg ''user'' ''hello'']" "''gemma3:latest''"]
    h0 h2 h3 p
  show ?thesis by simp
qed


section \<open>Facts about the execution and debugging loop\<close>

lemma call_all_fail:
  assumes "\<forall>i<3. transport_failure (transport world (posts st + i))"
  shows "\<exists>evs. call_ollama_api_stream world msgs model 3 st
                 = (Inr None, st\<lparr>posts := posts st + 3, trace := trace st @ evs\<rparr>)
             \<and> list_all quiet evs \<and> posted evs = replicate 3 msgs"
proof -
  have "nat 3 = 3" and "0 + int 3 = 3" by simp_all
  with assms show ?thesis
    using attempts_all_fail [of 3 world st 0 3 model msgs]
    by (simp add: call_ollama_api_stream_def)
qed

lemma exec_loop_decline:
  assumes "\<not> affirmative confirm"
  shows "exec_loop world model run_command (confirm # rest) st
           = (None, rest, st\<lparr>trace := trace st @ [Input (exec_prompt run_command) (Some confirm)]\<rparr>)"
  using assms by (simp add: emit_def)

lemma exec_loop_success:
  assumes "affirmative confirm" and "shell world (runs st) run_command = Exit0 out"
  shows "exec_loop world model run_command (confirm # rest) st
           = (None, rest,
              st\<lparr>runs := Suc (runs st),
                 trace := trace st @ [Input (exec_prompt run_command) (Some confirm), Run run_command,
                                      Print ([nl] @ ''Success! Output:'' @ [nl] @ '' '' @ out @ [nl])]\<rparr>)"
  using assms by (simp add: emit_def)

lemma exec_loop_failure_eof:
  assumes "affirmative confirm" and "shell world (runs st) run_command = CalledProcessError e stderr"
  shows "exec_loop world model run_command [confirm] st
           = (Some EOFError, [],
              st\<lparr>runs := Suc (runs st),
                 trace := trace st @ failed_run run_command confirm e stderr
                            @ [Input debug_prompt None]\<rparr>)"
  using assms by (simp add: emit_def failed_run_def failure_report_def)

lemma exec_loop_no_debug:
  assumes "affirmative confirm" and "shell world (runs st) run_command = CalledProcessError e stderr"
    and "\<not> affirmative debug_confirm"
  shows "exec_loop world model run_command (confirm # debug_confirm # rest) st
           = (None, rest,
              st\<lparr>runs := Suc (runs st),
                 trace := trace st @ failed_run run_command confirm e stderr
                            @ [Input debug_prompt (Some debug_confirm)]\<rparr>)"
  using assms by (simp add: emit_def failed_run_def failure_report_def)

lemma exec_loop_debug:
  assumes "affirmative confirm" and "shell world (runs st) run_command = CalledProcessError e stderr"
    and "affirmative debug_confirm"
  shows "exec_loop world model run_command (confirm # debug_confirm # rest) st
           = (case call_ollama_api_stream world (messages st @ [correction_request stderr]) model 3
                     (st\<lparr>runs := Suc (runs st),
                         trace := trace st @ failed_run run_command confirm e stderr
                                    @ debug_start debug_confirm\<rparr>) of
                (Inl x, st6) \<Rightarrow> (Some x, rest, st6)
              | (Inr debug_response, st6) \<Rightarrow>
                  if truthy debug_response
                  then (if \<not> truthy (snd (snd (extract_code_block (the debug_response))))
                        then (None, rest,
                              st6\<lparr>messages := messages st6 @ [msg ''assistant'' (the debug_response)],
                                  trace := trace st6 @ [Print ([nl] @ ''No fix provided.'' @ [nl])]\<rparr>)
                        else exec_loop world model
                               (the (snd (snd (extract_code_block (the debug_response))))) rest
                               (st6\<lparr>messages := messages st6 @ [msg ''assistant'' (the debug_response)]\<rparr>))
                  else exec_loop world model run_command rest st6)"
  using assms
  by (simp add: emit_def failed_run_def failure_report_def debug_start_def Let_def
           split: prod.splits sum.splits)

declare exec_loop.simps(2) [simp del]


subsection \<open>What a whole run of the loop does to the state\<close>

lemma gated_quiet_append:
  "list_all quiet qs \<Longrightarrow> (\<And>p. gated p es) \<Longrightarrow> gated p (qs @ es)"
proof (induction qs arbitrary: p)
  case Nil
  then show ?case by simp
next
  case (Cons q qs)
  then show ?case by (cases q) simp_all
qed

lemma declines_end_quiet_append:
  "list_all quiet qs \<Longrightarrow> declines_end (qs @ es) = declines_end es"
proof (induction qs)
  case Nil
  show ?case by simp
next
  case (Cons q qs)
  then show ?case by (cases q) simp_all
qed

lemma debug_rounds_append: "debug_rounds (xs @ ys) = debug_rounds xs + debug_rounds ys"
  by (simp add: debug_rounds_def)

lemma loop_effectI:
  assumes "st' = st\<lparr>messages := messages st @ added, posts := posts st + n, runs := runs st + r,
                 trace := trace st @ evs\<rparr>"
    and "\<And>prev. gated prev evs" and "declines_end evs" and "evs \<noteq> []"
    and "\<forall>m\<in>set added. role m = ''assistant'' \<and> images m = None \<and> content m \<noteq> []"
    and "length added \<le> debug_rounds evs"
  shows "loop_effect st st'"
  unfolding loop_effect_def using assms by blast

text \<open>A failed run, an accepted debug offer and a completion call, followed by more of the
  loop.\<close>

lemma loop_effect_after_round:
  assumes conf: "affirmative confirm" "affirmative debug_confirm"
    and q: "list_all quiet qs"
    and a: "a = [] \<or> (\<exists>r. r \<noteq> [] \<and> a = [msg ''assistant'' r])"
    and rest: "loop_effect
                 (st\<lparr>messages := messages st @ a, posts := posts st + n, runs := Suc (runs st),
                     trace := trace st @ failed_run run_command confirm e stderr
                                @ debug_start debug_confirm @ qs\<rparr>) st'"
  shows "loop_effect st st'"
proof -
  define st1 where "st1 = st\<lparr>messages := messages st @ a, posts := posts st + n, runs := Suc (runs st),
                     trace := trace st @ failed_run run_command confirm e stderr
                                @ debug_start debug_confirm @ qs\<rparr>"
  from rest obtain n' r' evs added where
    st': "st' = st1\<lparr>messages := messages st1 @ added, posts := posts st1 + n', runs := runs st1 + r',
                 trace := trace st1 @ evs\<rparr>"
    and g: "\<And>prev. gated prev evs" and d: "declines_end evs" and ne: "evs \<noteq> []"
    and r: "\<forall>m\<in>set added. role m = ''assistant'' \<and> images m = None \<and> content m \<noteq> []"
    and l: "length added \<le> debug_rounds evs"
    unfolding loop_effect_def st1_def by blast
  show ?thesis
  proof (rule loop_effectI)
    show "st' = st\<lparr>messages := messages st @ (a @ added), posts := posts st + (n + n'),
                   runs := runs st + (Suc r'),
                   trace := trace st @ (failed_run run_command confirm e stderr
                                @ debug_start debug_confirm @ qs @ evs)\<rparr>"
      by (simp add: st' st1_def)
    show "gated prev (failed_run run_command confirm e stderr @ debug_start debug_confirm @ qs @ evs)"
      for prev
      using conf q g by (simp add: failed_run_def debug_start_def gated_quiet_append)
    show "declines_end (failed_run run_command confirm e stderr @ debug_start debug_confirm @ qs @ evs)"
      using conf q d by (simp add: failed_run_def debug_start_def declines_end_quiet_append)
    show "failed_run run_command confirm e stderr @ debug_start debug_confirm @ qs @ evs \<noteq> []"
      by (simp add: failed_run_def)
    show "\<forall>m\<in>set (a @ added). role m = ''assistant'' \<and> images m = None \<and> content m \<noteq> []"
      using a r by (auto simp: msg_def)
    have "length a \<le> 1" using a by auto
    moreover have "debug_rounds (debug_start debug_confirm) = 1"
      using conf by (simp add: debug_start_def debug_rounds_def)
    ultimately show "length (a @ added)
        \<le> debug_rounds (failed_run run_command confirm e stderr @ debug_start debug_confirm @ qs @ evs)"
      using l by (simp add: debug_rounds_append)
  qed
qed

text \<open>The same round when the loop ends in it.\<close>

lemma loop_effect_last_round:
  assumes conf: "affirmative confirm" "affirmative debug_confirm"
    and q: "list_all quiet qs"
    and a: "a = [] \<or> (\<exists>r. r \<noteq> [] \<and> a = [msg ''assistant'' r])"
    and st': "st' = st\<lparr>messages := messages st @ a, posts := posts st + n, runs := Suc (runs st),
                     trace := trace st @ failed_run run_command confirm e stderr
                                @ debug_start debug_confirm @ qs\<rparr>"
  shows "loop_effect st st'"
proof (rule loop_effectI)
  show "st' = st\<lparr>messages := messages st @ a, posts := posts st + n, runs := runs st + 1,
                 trace := trace st @ (failed_run run_command confirm e stderr
                                @ debug_start debug_confirm @ qs)\<rparr>"
    by (simp add: st')
  have "gated prev (failed_run run_command confirm e stderr @ debug_start debug_confirm @ qs @ [])"
    for prev
    using conf q by (simp add: failed_run_def debug_start_def gated_quiet_append del: append_Nil2)
  then show "gated prev (failed_run run_command confirm e stderr @ debug_start debug_confirm @ qs)"
    for prev by simp
  have "declines_end (failed_run run_command confirm e stderr @ debug_start debug_confirm @ qs @ [])"
    using conf q by (simp add: failed_run_def debug_start_def declines_end_quiet_append del: append_Nil2)
  then show "declines_end (failed_run run_command confirm e stderr @ debug_start debug_confirm @ qs)"
    by simp
  show "failed_run run_command confirm e stderr @ debug_start debug_confirm @ qs \<noteq> []"
    by (simp add: failed_run_def)
  show "\<forall>m\<in>set a. role m = ''assistant'' \<and> images m = None \<and> content m \<noteq> []"
    using a by (auto simp: msg_def)
  have "length a \<le> 1" using a by auto
  moreover have "debug_rounds (debug_start debug_confirm) = 1"
    using conf by (simp add: debug_start_def debug_rounds_def)
  ultimately show "length a
      \<le> debug_rounds (failed_run run_command confirm e stderr @ debug_start debug_confirm @ qs)"
    by (simp add: debug_rounds_append)
qed


lemma exec_loop_effect:
  "loop_effect st (snd (snd (exec_loop world model run_command stdin st)))"
proof (induction "length stdin" arbitrary: stdin st run_command rule: less_induct)
  case less
  show ?case
  proof (cases stdin)
    case Nil
    show ?thesis
      by (rule loop_effectI [where added = "[]" and n = 0 and r = 0
              and evs = "[Input (exec_prompt run_command) None]"])
         (simp_all add: Nil emit_def debug_rounds_def)
  next
    case stdin: (Cons confirm rest)
    show ?thesis
    proof (cases "affirmative confirm")
      case False
      show ?thesis
        by (rule loop_effectI [where added = "[]" and n = 0 and r = 0
                and evs = "[Input (exec_prompt run_command) (Some confirm)]"])
           (simp_all add: stdin exec_loop_decline [OF False] debug_rounds_def)
    next
      case yes: True
      show ?thesis
      proof (cases "shell world (runs st) run_command")
        case (Exit0 out)
        show ?thesis
          by (rule loop_effectI [where added = "[]" and n = 0 and r = 1
                and evs = "[Input (exec_prompt run_command) (Some confirm), Run run_command,
                            Print ([nl] @ ''Success! Output:'' @ [nl] @ '' '' @ out @ [nl])]"])
             (simp_all add: stdin exec_loop_success [OF yes Exit0] yes debug_rounds_def)
      next
        case failed: (CalledProcessError e stderr)
        show ?thesis
        proof (cases rest)
          case Nil
          show ?thesis
            by (rule loop_effectI [where added = "[]" and n = 0 and r = 1
                  and evs = "failed_run run_command confirm e stderr @ [Input debug_prompt None]"])
               (simp_all add: stdin Nil exec_loop_failure_eof [OF yes failed] yes failed_run_def
                  debug_rounds_def)
        next
          case rest: (Cons debug_confirm rest')
          show ?thesis
          proof (cases "affirmative debug_confirm")
            case False
            show ?thesis
              by (rule loop_effectI [where added = "[]" and n = 0 and r = 1
                    and evs = "failed_run run_command confirm e stderr
                                 @ [Input debug_prompt (Some debug_confirm)]"])
                 (simp_all add: stdin rest exec_loop_no_debug [OF yes failed False] yes failed_run_def
                    debug_rounds_def)
          next
            case dyes: True
            define st5 where "st5 = st\<lparr>runs := Suc (runs st),
                         trace := trace st @ failed_run run_command confirm e stderr
                                    @ debug_start debug_confirm\<rparr>"
            define result where "result = call_ollama_api_stream world
                         (messages st @ [correction_request stderr]) model 3 st5"
            obtain n qs where
              st6: "snd result = st5\<lparr>posts := posts st5 + n, trace := trace st5 @ qs\<rparr>"
              and q: "list_all quiet qs"
              unfolding result_def using call_frame by blast
            have unfold: "exec_loop world model run_command stdin st
               = (case result of
                    (Inl x, st6) \<Rightarrow> (Some x, rest', st6)
                  | (Inr debug_response, st6) \<Rightarrow>
                      if truthy debug_response
                      then (if \<not> truthy (snd (snd (extract_code_block (the debug_response))))
                            then (None, rest',
                                  st6\<lparr>messages := messages st6 @ [msg ''assistant'' (the debug_response)],
                                      trace := trace st6 @ [Print ([nl] @ ''No fix provided.'' @ [nl])]\<rparr>)
                            else exec_loop world model
                                   (the (snd (snd (extract_code_block (the debug_response))))) rest'
                                   (st6\<lparr>messages := messages st6 @ [msg ''assistant'' (the debug_response)]\<rparr>))
                      else exec_loop world model run_command rest' st6)"
              unfolding stdin rest result_def st5_def
              by (rule exec_loop_debug [OF yes failed dyes])
            have shorter: "length rest' < length stdin"
              by (simp add: stdin rest)
            show ?thesis
            proof (cases "fst result")
              case (Inl x)
              then have res: "result = (Inl x, snd result)"
                by (metis prod.collapse)
              have "snd (snd (exec_loop world model run_command stdin st)) = snd result"
                by (subst unfold, subst res) simp
              moreover have "loop_effect st (snd result)"
                by (rule loop_effect_last_round [OF yes dyes q, where run_command = run_command and e = e and stderr = stderr and a = "[]" and n = n])
                   (simp_all add: st6 st5_def)
              ultimately show ?thesis by simp
            next
              case (Inr debug_response)
              then have res: "result = (Inr debug_response, snd result)"
                by (metis prod.collapse)
              show ?thesis
              proof (cases "truthy debug_response")
                case False
                have "exec_loop world model run_command stdin st
                        = exec_loop world model run_command rest' (snd result)"
                  by (subst unfold, subst res) (simp add: False)
                moreover define final where
                  "final = snd (snd (exec_loop world model run_command rest' (snd result)))"
                have eq: "snd result
                        = st\<lparr>messages := messages st @ [], posts := posts st + n, runs := Suc (runs st),
                            trace := trace st @ failed_run run_command confirm e stderr
                                       @ debug_start debug_confirm @ qs\<rparr>"
                  by (simp add: st6 st5_def)
                have "loop_effect (snd result) final"
                  unfolding final_def using shorter by (rule less)
                then have "loop_effect
                        (st\<lparr>messages := messages st @ [], posts := posts st + n, runs := Suc (runs st),
                            trace := trace st @ failed_run run_command confirm e stderr
                                       @ debug_start debug_confirm @ qs\<rparr>) final"
                  by (simp only: eq)
                then have "loop_effect st final"
                  by (rule loop_effect_after_round [OF yes dyes q, rotated]) simp
                ultimately show ?thesis by (simp add: final_def)
              next
                case True
                then obtain r where r: "debug_response = Some r" "r \<noteq> []"
                  by (cases debug_response) (auto simp: truthy_def)
                have tr: "truthy (Some r)"
                  using r by (simp add: truthy_def)
                have a1: "[msg ''assistant'' r] = []
                            \<or> (\<exists>r'. r' \<noteq> [] \<and> [msg ''assistant'' r] = [msg ''assistant'' r'])"
                  using r by blast
                define st7 where "st7 = (snd result)\<lparr>messages := messages (snd result)
                                            @ [msg ''assistant'' r]\<rparr>"
                have st7: "st7 = st\<lparr>messages := messages st @ [msg ''assistant'' r],
                                 posts := posts st + n, runs := Suc (runs st),
                                 trace := trace st @ failed_run run_command confirm e stderr
                                            @ debug_start debug_confirm @ qs\<rparr>"
                  by (simp add: st7_def st6 st5_def)
                show ?thesis
                proof (cases "truthy (snd (snd (extract_code_block r)))")
                  case False
                  have "snd (snd (exec_loop world model run_command stdin st))
                          = st7\<lparr>trace := trace st7 @ [Print ([nl] @ ''No fix provided.'' @ [nl])]\<rparr>"
                    by (subst unfold, subst res) (simp add: tr r False st7_def)
                  moreover have "loop_effect st
                          (st7\<lparr>trace := trace st7 @ [Print ([nl] @ ''No fix provided.'' @ [nl])]\<rparr>)"
                    by (rule loop_effect_last_round [OF yes dyes _ a1, where run_command = run_command
                          and e = e and stderr = stderr and n = n
                          and qs = "qs @ [Print ([nl] @ ''No fix provided.'' @ [nl])]"])
                       (simp_all add: q st7)
                  ultimately show ?thesis by simp
                next
                  case fixed: True
                  have "exec_loop world model run_command stdin st
                          = exec_loop world model (the (snd (snd (extract_code_block r)))) rest' st7"
                    by (subst unfold, subst res) (simp add: tr r fixed st7_def)
                  moreover define final where
                    "final = snd (snd (exec_loop world model (the (snd (snd (extract_code_block r))))
                                       rest' st7))"
                  have "loop_effect st7 final"
                    unfolding final_def using shorter by (rule less)
                  then have "loop_effect
                          (st\<lparr>messages := messages st @ [msg ''assistant'' r],
                              posts := posts st + n, runs := Suc (runs st),
                              trace := trace st @ failed_run run_command confirm e stderr
                                         @ debug_start debug_confirm @ qs\<rparr>) final"
                    by (simp only: st7)
                  then have "loop_effect st final"
                    by (rule loop_effect_after_round [OF yes dyes q a1])
                  ultimately show ?thesis by (simp add: final_def)
                qed
              qed
            qed
          qed
        qed
      qed
    qed
  qed
qed


section \<open>Facts about \<open>handle_response\<close>\<close>

lemma save_code_frame:
  assumes "save_code filename code st = Inr st2"
  shows "\<exists>d2. st2 = st\<lparr>disk := d2,
                        trace := trace st @ [Print ([nl] @ ''Code saved to '' @ filename @ [nl])]\<rparr>"
  using assms by (auto simp: save_code_def emit_def split: sum.splits)

text \<open>
  The part of \<open>handle_response\<close> that follows a successful save, as a function of its own:
  the prompt, the request for a run command and the loop.
\<close>

lemma handle_response_unfold:
  "handle_response world ai_response model stdin st =
     (case extract_code_block ai_response of
        (filename, language, code) \<Rightarrow>
          if \<not> truthy code then (None, stdin, st)
          else (case save_code (chosen_name filename st) (the code) (chosen_state filename st) of
                  Inl e \<Rightarrow> (Some e, stdin, chosen_state filename st)
                | Inr st2 \<Rightarrow>
                    after_save world model (chosen_name filename st)
                      (if \<not> truthy language then ''python'' else the language) stdin st2))"
  by (simp add: handle_response_def after_save_def chosen_name_def chosen_state_def Let_def
        split: prod.splits sum.splits list.splits)

lemma chosen_state_frame: "\<exists>c. chosen_state filename st = st\<lparr>file_counter := c\<rparr>"
proof (cases "truthy filename")
  case True
  then show ?thesis
    by (intro exI [of _ "file_counter st"]) (simp add: chosen_state_def)
next
  case False
  then show ?thesis
    by (intro exI [of _ "snd (free_name (disk st) (file_counter st))"])
       (simp add: chosen_state_def split: prod.splits)
qed

lemma after_save_effect:
  "\<exists>n r evs added.
      snd (snd (after_save world model filename language stdin st))
        = st\<lparr>messages := messages st @ added, posts := posts st + n, runs := runs st + r,
             trace := trace st @ evs\<rparr>
      \<and> (\<forall>prev. gated prev evs) \<and> declines_end evs
      \<and> (\<forall>m\<in>set added. role m = ''assistant'' \<and> images m = None \<and> content m \<noteq> [])
      \<and> length added \<le> debug_rounds evs"
proof (cases stdin)
  case Nil
  show ?thesis
    by (intro exI [of _ 0] exI [of _ "[Input (run_prompt language) None]"] exI [of _ "[]"])
       (simp add: Nil after_save_def emit_def)
next
  case stdin: (Cons run_confirm rest)
  show ?thesis
  proof (cases "affirmative run_confirm")
    case False
    then show ?thesis
      by (intro exI [of _ 0] exI [of _ "[Input (run_prompt language) (Some run_confirm)]"]
            exI [of _ "[]"])
         (simp add: stdin after_save_def emit_def)
  next
    case yes: True
    define st4 where "st4 = st\<lparr>trace := trace st @ [Input (run_prompt language) (Some run_confirm),
                                                Print ([nl] @ ''Generating run command: '')]\<rparr>"
    define result where
      "result = call_ollama_api_stream world (run_messages filename language) model 3 st4"
    obtain n qs where
      st5: "snd result = st4\<lparr>posts := posts st4 + n, trace := trace st4 @ qs\<rparr>"
      and q: "list_all quiet qs"
      unfolding result_def using call_frame by blast
    define pre where "pre = [Input (run_prompt language) (Some run_confirm),
                             Print ([nl] @ ''Generating run command: '')] @ qs"
    have st5': "snd result = st\<lparr>posts := posts st + n, trace := trace st @ pre\<rparr>"
      by (simp add: st5 st4_def pre_def)
    have gpre: "gated prev (pre @ es)" if "\<And>p. gated p es" for prev es
      using q that by (simp add: pre_def gated_quiet_append)
    have dpre: "declines_end (pre @ es) = declines_end es" for es
      using q yes by (simp add: pre_def declines_end_quiet_append)
    have unfold: "after_save world model filename language stdin st
       = (case result of
            (Inl e, st5) \<Rightarrow> (Some e, rest, st5)
          | (Inr run_command_response, st5) \<Rightarrow>
              if \<not> truthy run_command_response then (None, rest, st5)
              else if \<not> truthy (snd (snd (extract_code_block (the run_command_response))))
                   then (None, rest,
                         st5\<lparr>trace := trace st5 @ [Print ([nl] @ ''No valid run command generated.''
                                                           @ [nl])]\<rparr>)
                   else exec_loop world model
                          (the (snd (snd (extract_code_block (the run_command_response))))) rest st5)"
      using yes
      by (simp add: stdin after_save_def result_def st4_def emit_def Let_def
            split: prod.splits sum.splits)
    have stop: ?thesis
      if "snd (snd (after_save world model filename language stdin st))
            = (snd result)\<lparr>trace := trace (snd result) @ tl\<rparr>" and "list_all quiet tl" for tl
    proof -
      have "gated prev ((pre @ tl) @ [])" for prev
        unfolding append_assoc
        by (rule gpre) (use that(2) in \<open>simp add: gated_quiet_append [where es = "[]", simplified]\<close>)
      moreover have "declines_end ((pre @ tl) @ [])"
        unfolding append_assoc using that(2)
        by (simp add: dpre declines_end_quiet_append [where es = "[]", simplified])
      ultimately show ?thesis
        by (intro exI [of _ n] exI [of _ 0] exI [of _ "pre @ tl"] exI [of _ "[]"])
           (simp add: that(1) st5')
    qed
    show ?thesis
    proof (cases "fst result")
      case (Inl e)
      then have res: "result = (Inl e, snd result)"
        by (metis prod.collapse)
      show ?thesis
        by (rule stop [of "[]"]) (subst unfold, subst res, simp_all)
    next
      case (Inr run_command_response)
      then have res: "result = (Inr run_command_response, snd result)"
        by (metis prod.collapse)
      show ?thesis
      proof (cases "truthy run_command_response")
        case False
        show ?thesis
          by (rule stop [of "[]"]) (subst unfold, subst res, simp_all add: False)
      next
        case True
        show ?thesis
        proof (cases "truthy (snd (snd (extract_code_block (the run_command_response))))")
          case False
          show ?thesis
            by (rule stop [of "[Print ([nl] @ ''No valid run command generated.'' @ [nl])]"])
               (subst unfold, subst res, simp_all add: True False)
        next
          case cmd: True
          define final where "final = snd (snd (exec_loop world model
                 (the (snd (snd (extract_code_block (the run_command_response))))) rest (snd result)))"
          have fin: "snd (snd (after_save world model filename language stdin st)) = final"
            by (subst unfold, subst res) (simp add: True cmd final_def)
          have "loop_effect (snd result) final"
            unfolding final_def by (rule exec_loop_effect)
          then obtain n' r' evs added where
            f: "final = (snd result)\<lparr>messages := messages (snd result) @ added,
                           posts := posts (snd result) + n', runs := runs (snd result) + r',
                           trace := trace (snd result) @ evs\<rparr>"
            and g: "\<And>prev. gated prev evs" and d: "declines_end evs"
            and a: "\<forall>m\<in>set added. role m = ''assistant'' \<and> images m = None \<and> content m \<noteq> []"
            and l: "length added \<le> debug_rounds evs"
            unfolding loop_effect_def by blast
          have "final = st\<lparr>messages := messages st @ added, posts := posts st + (n + n'),
                           runs := runs st + r', trace := trace st @ (pre @ evs)\<rparr>"
            by (simp add: f st5')
          moreover have "\<forall>prev. gated prev (pre @ evs)"
            using gpre g by blast
          moreover have "declines_end (pre @ evs)"
            using d by (simp add: dpre)
          moreover have "length added \<le> debug_rounds (pre @ evs)"
            using l by (simp add: debug_rounds_append)
          ultimately show ?thesis
            unfolding fin using a by blast
        qed
      qed
    qed
  qed
qed

lemma handle_response_effect:
  "\<exists>c d n r evs added.
      snd (snd (handle_response world ai_response model stdin st))
        = st\<lparr>messages := messages st @ added, file_counter := c, disk := d,
             posts := posts st + n, runs := runs st + r, trace := trace st @ evs\<rparr>
      \<and> (\<forall>prev. gated prev evs) \<and> declines_end evs
      \<and> (\<forall>m\<in>set added. role m = ''assistant'' \<and> images m = None \<and> content m \<noteq> [])
      \<and> length added \<le> debug_rounds evs"
proof -
  obtain filename language code where
    ex: "extract_code_block ai_response = (filename, language, code)"
    by (cases "extract_code_block ai_response") auto
  have idle: ?thesis
    if "snd (snd (handle_response world ai_response model stdin st)) = st\<lparr>file_counter := c\<rparr>" for c
    by (intro exI [of _ c] exI [of _ "disk st"] exI [of _ 0] exI [of _ "[]"])
       (simp add: that debug_rounds_def)
  show ?thesis
  proof (cases "truthy code")
    case False
    show ?thesis
      by (rule idle [of "file_counter st"]) (simp add: handle_response_unfold ex False)
  next
    case True
    obtain c where st1: "chosen_state filename st = st\<lparr>file_counter := c\<rparr>"
      using chosen_state_frame by blast
    show ?thesis
    proof (cases "save_code (chosen_name filename st) (the code) (chosen_state filename st)")
      case (Inl e)
      show ?thesis
        by (rule idle [of c]) (simp add: handle_response_unfold ex True Inl, simp add: st1)
    next
      case (Inr st2)
      then obtain d2 where st2: "st2 = st\<lparr>file_counter := c, disk := d2,
             trace := trace st @ [Print ([nl] @ ''Code saved to '' @ chosen_name filename st @ [nl])]\<rparr>"
        using save_code_frame [of "chosen_name filename st" "the code" "chosen_state filename st" st2]
        by (auto simp: st1)
      define lang where "lang = (if \<not> truthy language then ''python'' else the language)"
      have fin: "snd (snd (handle_response world ai_response model stdin st))
                   = snd (snd (after_save world model (chosen_name filename st) lang stdin st2))"
        by (simp add: handle_response_unfold ex True Inr lang_def)
      obtain n r evs added where
        f: "snd (snd (after_save world model (chosen_name filename st) lang stdin st2))
              = st2\<lparr>messages := messages st2 @ added, posts := posts st2 + n, runs := runs st2 + r,
                    trace := trace st2 @ evs\<rparr>"
        and g: "\<And>prev. gated prev evs" and d: "declines_end evs"
        and a: "\<forall>m\<in>set added. role m = ''assistant'' \<and> images m = None \<and> content m \<noteq> []"
        and l: "length added \<le> debug_rounds evs"
        using after_save_effect by blast
      define saved where "saved = Print ([nl] @ ''Code saved to '' @ chosen_name filename st @ [nl])"
      have "snd (snd (handle_response world ai_response model stdin st))
              = st\<lparr>messages := messages st @ added, file_counter := c, disk := d2,
                   posts := posts st + n, runs := runs st + r, trace := trace st @ (saved # evs)\<rparr>"
        by (simp only: fin f) (simp add: st2 saved_def)
      moreover have "\<forall>prev. gated prev (saved # evs)"
        using g by (simp add: saved_def)
      moreover have "declines_end (saved # evs)"
        using d by (simp add: saved_def)
      moreover have "length added \<le> debug_rounds (saved # evs)"
        using l by (simp add: debug_rounds_def)
      ultimately show ?thesis
        using a by blast
    qed
  qed
qed


section \<open>The confirmation gates\<close>

text \<open>
  Claim C6.  In every run of \<open>handle_response\<close>, whatever the model, the shell and the user
  do: a prompt whose answer is not \<open>y\<close> (after trimming and lower-casing), or that meets the
  end of the input, is the last thing that happens; and a command is handed to the shell only
  right after the prompt that showed this command was answered \<open>y\<close>.
\<close>

theorem confirmation_gates_fail_closed:
  "\<exists>evs. trace (snd (snd (handle_response world ai_response model stdin st))) = trace st @ evs
       \<and> gated None evs \<and> declines_end evs"
proof -
  obtain c d n r evs added where
    "snd (snd (handle_response world ai_response model stdin st))
        = st\<lparr>messages := messages st @ added, file_counter := c, disk := d,
             posts := posts st + n, runs := runs st + r, trace := trace st @ evs\<rparr>"
    and "\<forall>prev. gated prev evs" and "declines_end evs"
    using handle_response_effect by blast
  then show ?thesis
    by (intro exI [of _ evs]) simp
qed

theorem confirmation_gates_fail_closed_witness:
  "(\<exists>evs. trace (snd (snd (handle_response flaky named_reply ''gemma3:latest''
                              [''y'', '' Y '', ''yes''] session))) = trace session @ evs
        \<and> gated None evs \<and> declines_end evs)
   \<and> affirmative '' Y '' \<and> \<not> affirmative ''yes''
   \<and> fst (handle_response flaky named_reply ''gemma3:latest'' [''y'', '' Y '', ''yes''] session) = None
   \<and> runs (snd (snd (handle_response flaky named_reply ''gemma3:latest''
                        [''y'', '' Y '', ''yes''] session))) = 1
   \<and> posts (snd (snd (handle_response flaky named_reply ''gemma3:latest''
                        [''y'', '' Y '', ''yes''] session))) = 1"
proof -
  have "affirmative '' Y ''" "\<not> affirmative ''yes''"
    by code_simp+
  moreover have "fst (handle_response flaky named_reply ''gemma3:latest'' [''y'', '' Y '', ''yes''] session)
                   = None"
    by code_simp
  moreover have "runs (snd (snd (handle_response flaky named_reply ''gemma3:latest''
                        [''y'', '' Y '', ''yes''] session))) = 1"
    by code_simp
  moreover have "posts (snd (snd (handle_response flaky named_reply ''gemma3:latest''
                        [''y'', '' Y '', ''yes''] session))) = 1"
    by code_simp
  ultimately show ?thesis
    using confirmation_gates_fail_closed
            [of flaky named_reply "''gemma3:latest''" "[''y'', '' Y '', ''yes'']" session]
    by blast
qed


section \<open>The main conversation during the run and debug flow\<close>

lemma after_save_enters_loop:
  "messages (snd (snd (after_save world model filename language stdin st))) = messages st
   \<or> (\<exists>run_command rest st5.
         after_save world model filename language stdin st
           = exec_loop world model run_command rest st5
         \<and> messages st5 = messages st)"
proof (cases stdin)
  case Nil
  then show ?thesis by (simp add: after_save_def emit_def)
next
  case stdin: (Cons run_confirm rest)
  show ?thesis
  proof (cases "affirmative run_confirm")
    case False
    then show ?thesis by (simp add: stdin after_save_def emit_def)
  next
    case yes: True
    define st4 where "st4 = st\<lparr>trace := trace st @ [Input (run_prompt language) (Some run_confirm),
                                                Print ([nl] @ ''Generating run command: '')]\<rparr>"
    define result where
      "result = call_ollama_api_stream world (run_messages filename language) model 3 st4"
    obtain n qs where
      st5: "snd result = st4\<lparr>posts := posts st4 + n, trace := trace st4 @ qs\<rparr>"
      unfolding result_def using call_frame by blast
    have m: "messages (snd result) = messages st"
      by (simp add: st5 st4_def)
    have unfold: "after_save world model filename language stdin st
       = (case result of
            (Inl e, st5) \<Rightarrow> (Some e, rest, st5)
          | (Inr run_command_response, st5) \<Rightarrow>
              if \<not> truthy run_command_response then (None, rest, st5)
              else if \<not> truthy (snd (snd (extract_code_block (the run_command_response))))
                   then (None, rest,
                         st5\<lparr>trace := trace st5 @ [Print ([nl] @ ''No valid run command generated.''
                                                           @ [nl])]\<rparr>)
                   else exec_loop world model
                          (the (snd (snd (extract_code_block (the run_command_response))))) rest st5)"
      using yes
      by (simp add: stdin after_save_def result_def st4_def emit_def Let_def
            split: prod.splits sum.splits)
    show ?thesis
    proof (cases "fst result")
      case (Inl e)
      then have res: "result = (Inl e, snd result)"
        by (metis prod.collapse)
      show ?thesis
        by (rule disjI1, subst unfold, subst res) (simp add: m)
    next
      case (Inr run_command_response)
      then have res: "result = (Inr run_command_response, snd result)"
        by (metis prod.collapse)
      show ?thesis
      proof (cases "truthy run_command_response
                      \<and> truthy (snd (snd (extract_code_block (the run_command_response))))")
        case False
        show ?thesis
          by (rule disjI1, subst unfold, subst res) (use False in \<open>auto simp: m\<close>)
      next
        case True
        have "after_save world model filename language stdin st
                = exec_loop world model
                    (the (snd (snd (extract_code_block (the run_command_response))))) rest (snd result)"
          by (subst unfold, subst res) (use True in simp)
        with m show ?thesis by blast
      qed
    qed
  qed
qed

lemma handle_response_enters_loop:
  "messages (snd (snd (handle_response world ai_response model stdin st))) = messages st
   \<or> (\<exists>run_command rest st5.
         handle_response world ai_response model stdin st
           = exec_loop world model run_command rest st5
         \<and> messages st5 = messages st)"
proof -
  obtain filename language code where
    ex: "extract_code_block ai_response = (filename, language, code)"
    by (cases "extract_code_block ai_response") auto
  show ?thesis
  proof (cases "truthy code")
    case False
    then show ?thesis
      by (simp add: handle_response_unfold ex)
  next
    case True
    obtain c where st1: "chosen_state filename st = st\<lparr>file_counter := c\<rparr>"
      using chosen_state_frame by blast
    show ?thesis
    proof (cases "save_code (chosen_name filename st) (the code) (chosen_state filename st)")
      case (Inl e)
      show ?thesis
        by (rule disjI1) (simp add: handle_response_unfold ex True Inl, simp add: st1)
    next
      case (Inr st2)
      then obtain d2 where st2: "st2 = st\<lparr>file_counter := c, disk := d2,
             trace := trace st @ [Print ([nl] @ ''Code saved to '' @ chosen_name filename st @ [nl])]\<rparr>"
        using save_code_frame [of "chosen_name filename st" "the code" "chosen_state filename st" st2]
        by (auto simp: st1)
      then have m: "messages st2 = messages st" by simp
      define lang where "lang = (if \<not> truthy language then ''python'' else the language)"
      have fin: "handle_response world ai_response model stdin st
                   = after_save world model (chosen_name filename st) lang stdin st2"
        by (simp add: handle_response_unfold ex True Inr lang_def)
      show ?thesis
        unfolding fin using after_save_enters_loop [of world model "chosen_name filename st" lang stdin st2]
        by (simp only: m)
    qed
  qed
qed

text \<open>
  Claim C2, as the code has it.  (1) Over a whole run of \<open>handle_response\<close> the main
  conversation only grows, by non-empty assistant messages, at most one for each accepted
  debug offer.  (2) The exchange that asks for the run command leaves it as it was: the run
  either ends with the conversation unchanged or is a run of the loop started with the
  conversation unchanged.  (3) A round of the loop in which the command fails, the debug offer
  is accepted and the completion returns a non-empty reply \<open>r\<close> sends the conversation
  extended by the correction request (which carries the captured standard error), leaves the
  conversation itself without that request, and appends to it the one message
  \<open>assistant: r\<close> before it goes on or gives up.
\<close>

theorem conversation_grows_by_debug_replies_only:
  assumes "affirmative confirm" and "affirmative debug_confirm"
    and "shell world (runs st') run_command = CalledProcessError e stderr"
    and "call_ollama_api_stream world (messages st' @ [correction_request stderr]) model 3
           (st'\<lparr>runs := Suc (runs st'),
                trace := trace st' @ failed_run run_command confirm e stderr
                           @ debug_start debug_confirm\<rparr>) = (Inr (Some r), st6)"
    and "r \<noteq> []"
  shows "(\<exists>evs added.
           trace (snd (snd (handle_response world ai_response model stdin st))) = trace st @ evs
         \<and> messages (snd (snd (handle_response world ai_response model stdin st)))
             = messages st @ added
         \<and> (\<forall>m\<in>set added. role m = ''assistant'' \<and> content m \<noteq> [])
         \<and> length added \<le> debug_rounds evs)
       \<and> (messages (snd (snd (handle_response world ai_response model stdin st))) = messages st
         \<or> (\<exists>run_command rest st5.
               handle_response world ai_response model stdin st
                 = exec_loop world model run_command rest st5
               \<and> messages st5 = messages st))
       \<and> messages st6 = messages st'
       \<and> exec_loop world model run_command (confirm # debug_confirm # rest') st'
             = (if truthy (snd (snd (extract_code_block r)))
                then exec_loop world model (the (snd (snd (extract_code_block r)))) rest'
                       (st6\<lparr>messages := messages st' @ [msg ''assistant'' r]\<rparr>)
                else (None, rest',
                      st6\<lparr>messages := messages st' @ [msg ''assistant'' r],
                          trace := trace st6 @ [Print ([nl] @ ''No fix provided.'' @ [nl])]\<rparr>))"
proof (intro conjI)
  obtain c d n k evs added where
    "snd (snd (handle_response world ai_response model stdin st))
        = st\<lparr>messages := messages st @ added, file_counter := c, disk := d,
             posts := posts st + n, runs := runs st + k, trace := trace st @ evs\<rparr>"
    and "\<forall>m\<in>set added. role m = ''assistant'' \<and> images m = None \<and> content m \<noteq> []"
    and "length added \<le> debug_rounds evs"
    using handle_response_effect by blast
  then show "\<exists>evs added.
           trace (snd (snd (handle_response world ai_response model stdin st))) = trace st @ evs
         \<and> messages (snd (snd (handle_response world ai_response model stdin st)))
             = messages st @ added
         \<and> (\<forall>m\<in>set added. role m = ''assistant'' \<and> content m \<noteq> [])
         \<and> length added \<le> debug_rounds evs"
    by (intro exI [of _ evs] exI [of _ added]) simp
  show "messages (snd (snd (handle_response world ai_response model stdin st))) = messages st
         \<or> (\<exists>run_command rest st5.
               handle_response world ai_response model stdin st
                 = exec_loop world model run_command rest st5
               \<and> messages st5 = messages st)"
    by (rule handle_response_enters_loop)
  define st5 where "st5 = st'\<lparr>runs := Suc (runs st'),
                trace := trace st' @ failed_run run_command confirm e stderr
                           @ debug_start debug_confirm\<rparr>"
  obtain n qs where "snd (call_ollama_api_stream world (messages st' @ [correction_request stderr])
                            model 3 st5) = st5\<lparr>posts := posts st5 + n, trace := trace st5 @ qs\<rparr>"
    using call_frame by blast
  with assms(4) have st6: "st6 = st5\<lparr>posts := posts st5 + n, trace := trace st5 @ qs\<rparr>"
    by (simp add: st5_def)
  then have m: "messages st6 = messages st'"
    by (simp add: st5_def)
  have tr: "truthy (Some r)"
    using assms(5) by (simp add: truthy_def)
  show "messages st6 = messages st'"
    by (rule m)
  show "exec_loop world model run_command (confirm # debug_confirm # rest') st'
             = (if truthy (snd (snd (extract_code_block r)))
                then exec_loop world model (the (snd (snd (extract_code_block r)))) rest'
                       (st6\<lparr>messages := messages st' @ [msg ''assistant'' r]\<rparr>)
                else (None, rest',
                      st6\<lparr>messages := messages st' @ [msg ''assistant'' r],
                          trace := trace st6 @ [Print ([nl] @ ''No fix provided.'' @ [nl])]\<rparr>))"
    by (subst exec_loop_debug [OF assms(1,3,2)], subst assms(4)) (simp add: tr m)
qed

theorem conversation_grows_by_debug_replies_only_witness:
  "affirmative ''y'' \<and> affirmative ''Y''
   \<and> shell flaky (runs (session\<lparr>posts := 1\<rparr>)) ''python3 out/a.py''
       = CalledProcessError ''exit status 1'' ''boom''
   \<and> fst (call_ollama_api_stream flaky (messages (session\<lparr>posts := 1\<rparr>) @ [correction_request ''boom''])
             ''gemma3:latest'' 3
             (session\<lparr>posts := 1, runs := 1,
                trace := failed_run ''python3 out/a.py'' ''y'' ''exit status 1'' ''boom''
                           @ debug_start ''Y''\<rparr>)) = Inr (Some fix_reply)
   \<and> fix_reply \<noteq> []
   \<and> messages (snd (call_ollama_api_stream flaky
                       (messages (session\<lparr>posts := 1\<rparr>) @ [correction_request ''boom''])
                       ''gemma3:latest'' 3
                       (session\<lparr>posts := 1, runs := 1,
                          trace := failed_run ''python3 out/a.py'' ''y'' ''exit status 1'' ''boom''
                                     @ debug_start ''Y''\<rparr>)))
       = messages session
   \<and> messages (snd (snd (exec_loop flaky ''gemma3:latest'' ''python3 out/a.py'' [''y'', ''Y'', ''n'']
                            (session\<lparr>posts := 1\<rparr>))))
       = messages session @ [msg ''assistant'' fix_reply]"
proof -
  define st' where "st' = session\<lparr>posts := 1\<rparr>"
  define st5 where "st5 = st'\<lparr>runs := Suc (runs st'),
                trace := trace st' @ failed_run ''python3 out/a.py'' ''y'' ''exit status 1'' ''boom''
                           @ debug_start ''Y''\<rparr>"
  define result where "result = call_ollama_api_stream flaky
                         (messages st' @ [correction_request ''boom'']) ''gemma3:latest'' 3 st5"
  have st5: "st5 = session\<lparr>posts := 1, runs := 1,
                trace := failed_run ''python3 out/a.py'' ''y'' ''exit status 1'' ''boom''
                           @ debug_start ''Y''\<rparr>"
    by (simp add: st5_def st'_def session_def)
  have h1: "affirmative ''y''" and h2: "affirmative ''Y''"
    by code_simp+
  have h3: "shell flaky (runs st') ''python3 out/a.py'' = CalledProcessError ''exit status 1'' ''boom''"
    by (simp add: flaky_def)
  have "fst result = Inr (Some fix_reply)"
    unfolding result_def st5 st'_def by code_simp
  then have h4: "call_ollama_api_stream flaky (messages st' @ [correction_request ''boom''])
                   ''gemma3:latest'' 3
                   (st'\<lparr>runs := Suc (runs st'),
                        trace := trace st' @ failed_run ''python3 out/a.py'' ''y'' ''exit status 1'' ''boom''
                                   @ debug_start ''Y''\<rparr>) = (Inr (Some fix_reply), snd result)"
    unfolding result_def st5_def by (metis prod.collapse)
  have h5: "fix_reply \<noteq> []"
    by (simp add: fix_reply_def)
  have cmd: "snd (snd (extract_code_block fix_reply)) = Some ''python out/a.py''"
    by code_simp
  have no: "\<not> affirmative ''n''"
    by code_simp
  from conversation_grows_by_debug_replies_only [OF h1 h2 h3 h4 h5, of named_reply "[]" session "[''n'']"]
  have m: "messages (snd result) = messages st'"
    and "exec_loop flaky ''gemma3:latest'' ''python3 out/a.py'' [''y'', ''Y'', ''n''] st'
           = exec_loop flaky ''gemma3:latest'' ''python out/a.py'' [''n'']
               ((snd result)\<lparr>messages := messages st' @ [msg ''assistant'' fix_reply]\<rparr>)"
    by (simp_all add: cmd truthy_def)
  then have "messages (snd (snd (exec_loop flaky ''gemma3:latest'' ''python3 out/a.py''
                                   [''y'', ''Y'', ''n''] st')))
               = messages st' @ [msg ''assistant'' fix_reply]"
    by (simp add: exec_loop_decline [OF no])
  with h1 h2 h3 h5 m \<open>fst result = Inr (Some fix_reply)\<close> show ?thesis
    unfolding result_def st5 by (simp add: st'_def)
qed

text \<open>
  The claim as it was stated fails: in this run a debug offer is accepted and answered, the
  correction request is the last message of the second request posted, and the conversation
  ends with the reply alone.
\<close>

theorem correction_request_not_appended:
  "messages (snd (snd (handle_response flaky named_reply ''gemma3:latest''
                         [''y'', ''y'', ''y'', ''n''] session)))
     = messages session @ [msg ''assistant'' fix_reply]
   \<and> messages (snd (snd (handle_response flaky named_reply ''gemma3:latest''
                         [''y'', ''y'', ''y'', ''n''] session)))
     \<noteq> messages session @ [correction_request ''boom'', msg ''assistant'' fix_reply]
   \<and> posted (trace (snd (snd (handle_response flaky named_reply ''gemma3:latest''
                         [''y'', ''y'', ''y'', ''n''] session))))
     = [run_messages ''out/a.py'' ''python'', messages session @ [correction_request ''boom'']]
   \<and> debug_rounds (trace (snd (snd (handle_response flaky named_reply ''gemma3:latest''
                         [''y'', ''y'', ''y'', ''n''] session)))) = 1"
  by code_simp

section \<open>A debug round whose completion call fails\<close>

text \<open>
  Claim C10.  When the command fails, the debug offer is accepted and all three attempts of
  the corrective call fail at the transport level, the loop goes on: it is back at the
  execution prompt with the same command, the three requests posted, and the conversation,
  the counter and the disk as they were.
\<close>

theorem failed_debug_round_keeps_command:
  assumes "affirmative confirm" and "affirmative debug_confirm"
    and "shell world (runs st) run_command = CalledProcessError e stderr"
    and "\<forall>i<3. transport_failure (transport world (posts st + i))"
  shows "\<exists>evs. exec_loop world model run_command (confirm # debug_confirm # rest) st
               = exec_loop world model run_command rest
                   (st\<lparr>posts := posts st + 3, runs := Suc (runs st), trace := trace st @ evs\<rparr>)
             \<and> posted evs = replicate 3 (messages st @ [correction_request stderr])"
proof -
  define st5 where "st5 = st\<lparr>runs := Suc (runs st),
                trace := trace st @ failed_run run_command confirm e stderr
                           @ debug_start debug_confirm\<rparr>"
  have "\<forall>i<3. transport_failure (transport world (posts st5 + i))"
    using assms(4) by (simp add: st5_def)
  then obtain qs where
    call: "call_ollama_api_stream world (messages st @ [correction_request stderr]) model 3 st5
             = (Inr None, st5\<lparr>posts := posts st5 + 3, trace := trace st5 @ qs\<rparr>)"
    and p: "posted qs = replicate 3 (messages st @ [correction_request stderr])"
    using call_all_fail [of world st5 "messages st @ [correction_request stderr]" model] by blast
  have "exec_loop world model run_command (confirm # debug_confirm # rest) st
          = exec_loop world model run_command rest (st5\<lparr>posts := posts st5 + 3, trace := trace st5 @ qs\<rparr>)"
    by (subst exec_loop_debug [OF assms(1,3,2)], subst call [unfolded st5_def])
       (simp add: truthy_def st5_def)
  moreover have "st5\<lparr>posts := posts st5 + 3, trace := trace st5 @ qs\<rparr>
          = st\<lparr>posts := posts st + 3, runs := Suc (runs st),
               trace := trace st @ (failed_run run_command confirm e stderr
                                      @ debug_start debug_confirm @ qs)\<rparr>"
    by (simp add: st5_def)
  moreover have "posted (failed_run run_command confirm e stderr @ debug_start debug_confirm @ qs)
          = replicate 3 (messages st @ [correction_request stderr])"
    using p by (simp add: posted_append failed_run_def debug_start_def)
  ultimately show ?thesis
    by (intro exI [of _ "failed_run run_command confirm e stderr @ debug_start debug_confirm @ qs"])
       simp
qed

theorem failed_debug_round_keeps_command_witness:
  "affirmative ''y'' \<and> affirmative ''Y''
   \<and> shell offline (runs session) ''python3 out/a.py'' = CalledProcessError ''exit status 1'' ''boom''
   \<and> transport_failure (transport offline (posts session + 0))
   \<and> transport_failure (transport offline (posts session + 1))
   \<and> transport_failure (transport offline (posts session + 2))
   \<and> (\<exists>evs. exec_loop offline ''gemma3:latest'' ''python3 out/a.py'' [''y'', ''Y'', ''n''] session
              = (None, [],
                 session\<lparr>posts := 3, runs := 1,
                    trace := evs @ [Input (exec_prompt ''python3 out/a.py'') (Some ''n'')]\<rparr>)
          \<and> posted evs = replicate 3 (messages session @ [correction_request ''boom'']))"
proof -
  have h1: "affirmative ''y''" and h2: "affirmative ''Y''" and no: "\<not> affirmative ''n''"
    by code_simp+
  have h3: "shell offline (runs session) ''python3 out/a.py''
              = CalledProcessError ''exit status 1'' ''boom''"
    by (simp add: offline_def)
  have h4: "\<forall>i<3. transport_failure (transport offline (posts session + i))"
    by (simp add: offline_def)
  have s: "posts session = 0" "runs session = 0" "trace session = []"
    by (simp_all add: session_def)
  from failed_debug_round_keeps_command [OF h1 h2 h3 h4, of "''gemma3:latest''" "[''n'']"]
  obtain evs where
    "exec_loop offline ''gemma3:latest'' ''python3 out/a.py'' [''y'', ''Y'', ''n''] session
       = exec_loop offline ''gemma3:latest'' ''python3 out/a.py'' [''n'']
           (session\<lparr>posts := posts session + 3, runs := Suc (runs session),
              trace := trace session @ evs\<rparr>)"
    and "posted evs = replicate 3 (messages session @ [correction_request ''boom''])"
    by blast
  then have "exec_loop offline ''gemma3:latest'' ''python3 out/a.py'' [''y'', ''Y'', ''n''] session
              = (None, [],
                 session\<lparr>posts := 3, runs := 1,
                    trace := evs @ [Input (exec_prompt ''python3 out/a.py'') (Some ''n'')]\<rparr>)
          \<and> posted evs = replicate 3 (messages session @ [correction_request ''boom''])"
    by (simp add: exec_loop_decline [OF no] s)
  then have "\<exists>evs. exec_loop offline ''gemma3:latest'' ''python3 out/a.py'' [''y'', ''Y'', ''n''] session
              = (None, [],
                 session\<lparr>posts := 3, runs := 1,
                    trace := evs @ [Input (exec_prompt ''python3 out/a.py'') (Some ''n'')]\<rparr>)
          \<and> posted evs = replicate 3 (messages session @ [correction_request ''boom''])"
    by blast
  moreover have "transport_failure (transport offline (posts session + 0))"
    "transport_failure (transport offline (posts session + 1))"
    "transport_failure (transport offline (posts session + 2))"
    by (simp_all add: offline_def)
  ultimately show ?thesis
    using h1 h2 h3 by blast
qed


section \<open>Facts about the matcher\<close>

lemma match_here_literal:
  "match_here d (map Lit p @ ts) s
     = (if prefix p s then match_here d ts (drop (length p) s) else None)"
proof (induction p arbitrary: s)
  case Nil
  show ?case by simp
next
  case (Cons c p)
  show ?case
  proof (cases s)
    case Nil
    then show ?thesis by simp
  next
    case (Cons x xs)
    with Cons.IH [of xs] show ?thesis by simp
  qed
qed

text \<open>A match carries one captured text for every group of the pattern, so the groups that
  \<open>extract_code_block\<close> reads are there.\<close>

lemma lazy_group_length:
  assumes "\<And>s gs. k s = Some gs \<Longrightarrow> length gs = n"
    and "lazy_group d k acc s = Some gs"
  shows "length gs = Suc n"
  using assms(2)
proof (induction s arbitrary: acc)
  case Nil
  then show ?case using assms(1) by auto
next
  case (Cons c s)
  show ?case
  proof (cases "k (c # s)")
    case None
    with Cons show ?thesis by (auto split: if_splits)
  next
    case (Some gs')
    with Cons.prems assms(1) show ?thesis by auto
  qed
qed

lemma match_here_groups:
  "match_here d ts s = Some gs \<Longrightarrow> length gs = length (filter (\<lambda>t. t = Group) ts)"
proof (induction ts arbitrary: s gs)
  case Nil
  then show ?case by simp
next
  case (Cons t ts)
  show ?case
  proof (cases t)
    case (Lit c)
    with Cons show ?thesis by (cases s) (auto split: if_splits)
  next
    case Group
    with Cons.prems have "lazy_group d (match_here d ts) [] s = Some gs" by simp
    then have "length gs = Suc (length (filter (\<lambda>t. t = Group) ts))"
      using Cons.IH by (rule lazy_group_length [rotated])
    with Group show ?thesis by simp
  qed
qed

lemma re_search_groups:
  "re_search d ts s = Some gs \<Longrightarrow> length gs = length (filter (\<lambda>t. t = Group) ts)"
proof (induction s)
  case Nil
  then show ?case by (simp add: match_here_groups)
next
  case (Cons c s)
  then show ?case
    by (cases "match_here d ts (c # s)") (auto simp: match_here_groups)
qed

lemma filename_match_groups: "re_search False filename_re s = Some gs \<Longrightarrow> length gs = 1"
  by (drule re_search_groups) (simp add: filename_re_def)

lemma code_match_groups: "re_search True code_re s = Some gs \<Longrightarrow> length gs = 2"
  by (drule re_search_groups) (simp add: code_re_def)

lemma re_search_hit: "match_here d ts s = Some gs \<Longrightarrow> re_search d ts s = Some gs"
  by (cases s) simp_all

lemma re_search_miss: "match_here d ts (c # s) = None \<Longrightarrow> re_search d ts (c # s) = re_search d ts s"
  by simp

text \<open>An occurrence of \<open>p\<close> that starts inside \<open>x\<close> lies within \<open>x\<close> and all but the last
  character of a following \<open>p\<close>.\<close>

lemma prefix_in_front:
  assumes "prefix p (x @ p @ s)" and "x \<noteq> []" and "p \<noteq> []"
  shows "prefix p (x @ butlast p)"
proof -
  have "x @ p @ s = (x @ butlast p) @ (last p # s)"
    using assms(3) by simp
  moreover have "length p \<le> length (x @ butlast p)"
    using assms(2,3) by (cases x) simp_all
  ultimately show ?thesis
    using assms(1) by (metis prefix_length_prefix prefixI)
qed

lemma re_search_first_literal:
  assumes "p \<noteq> []" and "\<not> sublist p (pre @ butlast p)"
  shows "re_search d (map Lit p @ ts) (pre @ p @ s) = re_search d (map Lit p @ ts) (p @ s)"
  using assms(2)
proof (induction pre)
  case Nil
  show ?case by simp
next
  case (Cons c pre)
  from Cons.prems have no: "\<not> prefix p ((c # pre) @ butlast p)" and rest: "\<not> sublist p (pre @ butlast p)"
    by (simp_all add: sublist_Cons_right)
  from no have "\<not> prefix p ((c # pre) @ p @ s)"
    using prefix_in_front [OF _ _ assms(1), of "c # pre" s] by blast
  then have "match_here d (map Lit p @ ts) (c # pre @ p @ s) = None"
    by (simp add: match_here_literal)
  then have "re_search d (map Lit p @ ts) ((c # pre) @ p @ s)
               = re_search d (map Lit p @ ts) (pre @ p @ s)"
    by simp
  with Cons.IH [OF rest] show ?case by simp
qed

text \<open>A lazy group before a newline takes the rest of the line.\<close>

lemma lazy_group_line:
  assumes "nl \<notin> set tag" and "match_here d ts s = Some gs"
  shows "lazy_group d (match_here d (Lit nl # ts)) acc (tag @ nl # s) = Some ((acc @ tag) # gs)"
  using assms(1)
proof (induction tag arbitrary: acc)
  case Nil
  with assms(2) show ?case by simp
next
  case (Cons c tag)
  then have "c \<noteq> nl" and "nl \<notin> set tag" by auto
  with Cons.IH [of "acc @ [c]"] show ?case by simp
qed

text \<open>With \<open>re.DOTALL\<close>, a lazy group before a final literal stops at its first
  occurrence.\<close>

lemma lazy_group_until:
  assumes "p \<noteq> []" and "\<not> sublist p (body @ butlast p)"
  shows "lazy_group True (match_here True (map Lit p)) acc (body @ p @ rest) = Some [acc @ body]"
  using assms(2)
proof (induction body arbitrary: acc)
  case Nil
  from assms(1) obtain c cs where p: "p @ rest = c # cs"
    by (cases p) auto
  have "match_here True (map Lit p @ []) (p @ rest) = Some []"
    by (subst match_here_literal) simp
  then have "match_here True (map Lit p) (c # cs) = Some []"
    by (simp add: p)
  then have "lazy_group True (match_here True (map Lit p)) acc (c # cs) = Some [acc]"
    by simp
  then show ?case by (simp add: p)
next
  case (Cons c body)
  from Cons.prems have no: "\<not> prefix p ((c # body) @ butlast p)"
    and rest: "\<not> sublist p (body @ butlast p)"
    by (simp_all add: sublist_Cons_right)
  from no have "\<not> prefix p ((c # body) @ p @ rest)"
    using prefix_in_front [OF _ _ assms(1), of "c # body" rest] by blast
  then have "match_here True (map Lit p @ []) (c # body @ p @ rest) = None"
    by (subst match_here_literal) simp
  then have "match_here True (map Lit p) (c # body @ p @ rest) = None"
    by simp
  with Cons.IH [OF rest, of "acc @ [c]"] show ?case by simp
qed

text \<open>The code pattern on a response whose first fence opens a block.\<close>

lemma code_match_first_block:
  assumes "\<not> sublist fence (pre @ butlast fence)" and "nl \<notin> set tag"
    and "\<not> sublist fence (body @ butlast fence)"
  shows "re_search True code_re (pre @ fence @ tag @ [nl] @ body @ fence @ rest) = Some [tag, body]"
proof -
  have ne: "fence \<noteq> []" by (simp add: fence_def)
  have body: "match_here True (Group # map Lit fence) (body @ fence @ rest) = Some [body]"
    using lazy_group_until [OF ne assms(3), of "[]" rest] by simp
  have "match_here True (Group # Lit nl # Group # map Lit fence) (tag @ nl # body @ fence @ rest)
          = Some [tag, body]"
    using lazy_group_line [OF assms(2) body, of "[]"] by simp
  then have "match_here True (map Lit fence @ Group # Lit nl # Group # map Lit fence)
               (fence @ tag @ nl # body @ fence @ rest) = Some [tag, body]"
    by (subst match_here_literal) simp
  then have "re_search True (map Lit fence @ Group # Lit nl # Group # map Lit fence)
               (fence @ tag @ nl # body @ fence @ rest) = Some [tag, body]"
    by (rule re_search_hit)
  then have "re_search True (map Lit fence @ Group # Lit nl # Group # map Lit fence)
               (pre @ fence @ tag @ nl # body @ fence @ rest) = Some [tag, body]"
    by (subst re_search_first_literal [OF ne assms(1)])
  then show ?thesis
    by (simp add: code_re_def)
qed

text \<open>The file name pattern.\<close>

lemma filename_match_first_marker:
  assumes "\<not> sublist filename_marker (pre @ butlast filename_marker)" and "nl \<notin> set v"
  shows "re_search False filename_re (pre @ filename_marker @ v @ [nl] @ rest) = Some [v]"
proof -
  have ne: "filename_marker \<noteq> []" by (simp add: filename_marker_def)
  have "match_here False [] rest = Some []" by simp
  then have "match_here False [Group, Lit nl] (v @ nl # rest) = Some [v]"
    using lazy_group_line [OF assms(2), of False "[]" rest "[]" "[]"] by simp
  then have "match_here False (map Lit filename_marker @ [Group, Lit nl])
               (filename_marker @ v @ nl # rest) = Some [v]"
    by (subst match_here_literal) simp
  then have "re_search False (map Lit filename_marker @ [Group, Lit nl])
               (filename_marker @ v @ nl # rest) = Some [v]"
    by (rule re_search_hit)
  then have "re_search False (map Lit filename_marker @ [Group, Lit nl])
               (pre @ filename_marker @ v @ nl # rest) = Some [v]"
    by (subst re_search_first_literal [OF ne assms(1)])
  then show ?thesis
    by (simp add: filename_re_def)
qed

lemma lazy_group_needs_newline:
  "lazy_group d (match_here d [Lit nl]) acc s = Some gs \<Longrightarrow> nl \<in> set s"
proof (induction s arbitrary: acc)
  case Nil
  then show ?case by simp
next
  case (Cons c s)
  then show ?case
    by (cases "c = nl") (auto split: if_splits)
qed

lemma lazy_group_finds_newline:
  "nl \<in> set s \<Longrightarrow> lazy_group False (match_here False [Lit nl]) acc s \<noteq> None"
proof (induction s arbitrary: acc)
  case Nil
  then show ?case by simp
next
  case (Cons c s)
  then show ?case
    by (cases "c = nl") auto
qed

lemma filename_match_needs_marker:
  assumes "re_search False filename_re response = Some gs"
  shows "\<exists>pre v rest. response = pre @ filename_marker @ v @ [nl] @ rest"
proof -
  have here: "\<exists>v rest. s = filename_marker @ v @ [nl] @ rest"
    if "match_here False filename_re s = Some gs" for s gs
  proof -
    from that have p: "prefix filename_marker s"
      and g: "lazy_group False (match_here False [Lit nl]) [] (drop (length filename_marker) s) = Some gs"
      by (simp_all add: filename_re_def match_here_literal split: if_splits)
    from g have "nl \<in> set (drop (length filename_marker) s)"
      by (rule lazy_group_needs_newline)
    then obtain v rest where "drop (length filename_marker) s = v @ nl # rest"
      by (auto simp: in_set_conv_decomp)
    moreover from p have "s = filename_marker @ drop (length filename_marker) s"
      by (metis append_eq_conv_conj prefixE)
    ultimately have "s = filename_marker @ v @ [nl] @ rest" by simp
    then show ?thesis by blast
  qed
  from assms show ?thesis
  proof (induction response)
    case Nil
    then show ?case using here [of "[]" gs] by simp
  next
    case (Cons c response)
    show ?case
    proof (cases "match_here False filename_re (c # response)")
      case (Some gs')
      then obtain v rest where "c # response = filename_marker @ v @ [nl] @ rest"
        using here by blast
      then have "c # response = [] @ filename_marker @ v @ [nl] @ rest" by simp
      then show ?thesis by blast
    next
      case None
      with Cons.prems have "re_search False filename_re response = Some gs" by simp
      then obtain pre v rest where "response = pre @ filename_marker @ v @ [nl] @ rest"
        using Cons.IH by blast
      then have "c # response = (c # pre) @ filename_marker @ v @ [nl] @ rest" by simp
      then show ?thesis by blast
    qed
  qed
qed

lemma filename_match_finds_marker:
  "re_search False filename_re (pre @ filename_marker @ v @ [nl] @ rest) \<noteq> None"
proof (induction pre)
  case Nil
  have "nl \<in> set (v @ nl # rest)" by simp
  then have "lazy_group False (match_here False [Lit nl]) [] (v @ nl # rest) \<noteq> None"
    by (rule lazy_group_finds_newline)
  then have "match_here False (map Lit filename_marker @ [Group, Lit nl])
               (filename_marker @ v @ nl # rest) \<noteq> None"
    by (subst match_here_literal) simp
  then obtain gs where "match_here False filename_re (filename_marker @ v @ nl # rest) = Some gs"
    by (auto simp: filename_re_def)
  then have "re_search False filename_re (filename_marker @ v @ nl # rest) = Some gs"
    by (rule re_search_hit)
  then show ?case by simp
next
  case (Cons c pre)
  then show ?case
    by (cases "match_here False filename_re (c # pre @ filename_marker @ v @ [nl] @ rest)") simp_all
qed


section \<open>Extraction\<close>

text \<open>
  Claim C7.  \<open>extract_code_block\<close> is a function of the text alone.  When the first fence
  of the text is followed by a tag line and a body that ends at the next fence, the language
  is the trimmed, lower-cased tag (\<open>python\<close> when that is empty) and the code is the trimmed
  body, whatever follows the closing fence: later blocks are never looked at.
\<close>

theorem first_block_only:
  assumes "\<not> sublist fence (pre @ butlast fence)"
    and "nl \<notin> set tag"
    and "\<not> sublist fence (body @ butlast fence)"
  shows "snd (extract_code_block (pre @ fence @ tag @ [nl] @ body @ fence @ rest))
           = (Some (if lower (strip tag) = [] then ''python'' else lower (strip tag)),
              Some (strip body))"
  using code_match_first_block [OF assms, of rest]
  by (simp add: extract_code_block_def Let_def)

theorem first_block_only_witness:
  "\<not> sublist fence (''First: '' @ butlast fence)
   \<and> nl \<notin> set ''Python''
   \<and> \<not> sublist fence (('' print(1) '' @ [nl]) @ butlast fence)
   \<and> two_blocks = ''First: '' @ fence @ ''Python'' @ [nl] @ ('' print(1) '' @ [nl]) @ fence
                     @ ('' then ```bash'' @ [nl] @ ''ls'' @ [nl] @ ''```'')
   \<and> snd (extract_code_block two_blocks) = (Some ''python'', Some ''print(1)'')"
proof -
  have h1: "\<not> sublist fence (''First: '' @ butlast fence)"
    by code_simp
  have h2: "nl \<notin> set ''Python''"
    by (simp add: nl_def)
  have h3: "\<not> sublist fence (('' print(1) '' @ [nl]) @ butlast fence)"
    by code_simp
  have t: "two_blocks = ''First: '' @ fence @ ''Python'' @ [nl] @ ('' print(1) '' @ [nl]) @ fence
                     @ ('' then ```bash'' @ [nl] @ ''ls'' @ [nl] @ ''```'')"
    by (simp add: two_blocks_def fence_def)
  have l: "lower (strip ''Python'') = ''python''" and b: "strip ('' print(1) '' @ [nl]) = ''print(1)''"
    by code_simp+
  from first_block_only [OF h1 h2 h3, of "'' then ```bash'' @ [nl] @ ''ls'' @ [nl] @ ''```''"]
  have "snd (extract_code_block two_blocks) = (Some ''python'', Some ''print(1)'')"
    unfolding t [symmetric] l b by simp
  with h1 h2 h3 t show ?thesis by blast
qed

text \<open>
  Claim C8, as the code has it.  The file name is the trimmed text between the first
  occurrence of \<open>filename: \<close> and the first newline after it, and it is absent exactly when
  no occurrence of the marker has a newline somewhere after it.  A directive on the last line
  of a text that does not end in a newline is therefore not seen.
\<close>

theorem filename_of_first_terminated_marker:
  assumes "\<not> sublist filename_marker (pre @ butlast filename_marker)"
    and "nl \<notin> set v"
  shows "fst (extract_code_block (pre @ filename_marker @ v @ [nl] @ rest)) = Some (strip v)
       \<and> (fst (extract_code_block response) = None
            \<longleftrightarrow> \<not> (\<exists>pre' v' rest'. response = pre' @ filename_marker @ v' @ [nl] @ rest'))
       \<and> (nl \<notin> set w \<longrightarrow> \<not> sublist filename_marker before
            \<longrightarrow> fst (extract_code_block (before @ filename_marker @ w)) = None)"
proof (intro conjI impI)
  have "re_search False filename_re (pre @ filename_marker @ v @ [nl] @ rest) = Some [v]"
    by (rule filename_match_first_marker [OF assms])
  then show "fst (extract_code_block (pre @ filename_marker @ v @ [nl] @ rest)) = Some (strip v)"
    by (simp add: extract_code_block_def Let_def split: option.splits)
  have none: "fst (extract_code_block s) = None \<longleftrightarrow> re_search False filename_re s = None" for s
    by (simp add: extract_code_block_def Let_def split: option.splits)
  show absent: "fst (extract_code_block s) = None
            \<longleftrightarrow> \<not> (\<exists>pre' v' rest'. s = pre' @ filename_marker @ v' @ [nl] @ rest')" for s
  proof
    assume "fst (extract_code_block s) = None"
    then have "re_search False filename_re s = None" by (simp only: none)
    then show "\<not> (\<exists>pre' v' rest'. s = pre' @ filename_marker @ v' @ [nl] @ rest')"
      using filename_match_finds_marker by blast
  next
    assume no: "\<not> (\<exists>pre' v' rest'. s = pre' @ filename_marker @ v' @ [nl] @ rest')"
    have "re_search False filename_re s = None"
    proof (cases "re_search False filename_re s")
      case (Some gs)
      then have "\<exists>pre' v' rest'. s = pre' @ filename_marker @ v' @ [nl] @ rest'"
        by (rule filename_match_needs_marker)
      with no show ?thesis by simp
    qed simp
    then show "fst (extract_code_block s) = None" by (simp only: none)
  qed
  assume w: "nl \<notin> set w" and before: "\<not> sublist filename_marker before"
  have "\<not> (\<exists>pre' v' rest'. before @ filename_marker @ w = pre' @ filename_marker @ v' @ [nl] @ rest')"
  proof
    assume "\<exists>pre' v' rest'. before @ filename_marker @ w = pre' @ filename_marker @ v' @ [nl] @ rest'"
    then obtain pre' v' rest' where
      eq: "before @ filename_marker @ w = pre' @ filename_marker @ v' @ [nl] @ rest'"
      by blast
    have "nl \<notin> set filename_marker" by (simp add: filename_marker_def nl_def)
    with w have tail: "nl \<notin> set (filename_marker @ w)" by simp
    define k where "k = length (pre' @ filename_marker @ v')"
    have at_k: "(before @ filename_marker @ w) ! k = nl"
      unfolding eq k_def by (metis append_assoc nth_append_length append_Cons append_Nil)
    have k_less: "k < length (before @ filename_marker @ w)"
      unfolding eq k_def by simp
    show False
    proof (cases "k < length before")
      case True
      have "prefix (pre' @ filename_marker) (before @ filename_marker @ w)"
        unfolding eq by simp
      moreover have "prefix before (before @ filename_marker @ w)" by simp
      moreover have "length (pre' @ filename_marker) \<le> length before"
        using True by (simp add: k_def)
      ultimately have "prefix (pre' @ filename_marker) before"
        by (rule prefix_length_prefix)
      then obtain zs where "before = pre' @ filename_marker @ zs"
        by (auto simp: prefix_def)
      then have "sublist filename_marker before" by simp
      with before show False by simp
    next
      case False
      then have "(before @ filename_marker @ w) ! k = (filename_marker @ w) ! (k - length before)"
        by (simp add: nth_append)
      moreover have "k - length before < length (filename_marker @ w)"
        using False k_less by simp
      ultimately have "nl \<in> set (filename_marker @ w)"
        using at_k by (metis nth_mem)
      with tail show False by simp
    qed
  qed
  then show "fst (extract_code_block (before @ filename_marker @ w)) = None"
    using absent by blast
qed

theorem filename_of_first_terminated_marker_witness:
  "\<not> sublist filename_marker (''Save it as '' @ butlast filename_marker)
   \<and> nl \<notin> set ''  src/run.py ''
   \<and> fst (extract_code_block (''Save it as '' @ filename_marker @ ''  src/run.py '' @ [nl]
                                 @ ''filename: other.py'' @ [nl]))
       = Some ''src/run.py''
   \<and> nl \<notin> set ''run.py''
   \<and> \<not> sublist filename_marker (''```python'' @ [nl] @ ''print(1)'' @ [nl] @ ''```'' @ [nl])
   \<and> fst (extract_code_block trailing_directive) = None"
proof -
  have h1: "\<not> sublist filename_marker (''Save it as '' @ butlast filename_marker)"
    by code_simp
  have h2: "nl \<notin> set ''  src/run.py ''"
    by (simp add: nl_def)
  have h3: "nl \<notin> set ''run.py''"
    by (simp add: nl_def)
  have h4: "\<not> sublist filename_marker (''```python'' @ [nl] @ ''print(1)'' @ [nl] @ ''```'' @ [nl])"
    by code_simp
  have s: "strip ''  src/run.py '' = ''src/run.py''"
    by code_simp
  have t: "trailing_directive
             = (''```python'' @ [nl] @ ''print(1)'' @ [nl] @ ''```'' @ [nl]) @ filename_marker @ ''run.py''"
    by (simp add: trailing_directive_def filename_marker_def)
  from filename_of_first_terminated_marker [OF h1 h2,
         of "''filename: other.py'' @ [nl]" trailing_directive "''run.py''"
            "''```python'' @ [nl] @ ''print(1)'' @ [nl] @ ''```'' @ [nl]"] h3 h4
  have "fst (extract_code_block (''Save it as '' @ filename_marker @ ''  src/run.py '' @ [nl]
                                 @ ''filename: other.py'' @ [nl])) = Some ''src/run.py''"
    and "fst (extract_code_block trailing_directive) = None"
    unfolding t s by blast+
  with h1 h2 h3 h4 show ?thesis by blast
qed

text \<open>
  The claim as it was stated fails on a directive that ends the text: the marker and its
  value are there, and no file name is extracted.
\<close>

theorem unterminated_directive_ignored:
  "sublist (filename_marker @ ''run.py'') trailing_directive
   \<and> fst (extract_code_block trailing_directive) = None
   \<and> fst (extract_code_block trailing_directive) \<noteq> Some ''run.py''
   \<and> fst (extract_code_block (trailing_directive @ [nl])) = Some ''run.py''"
  by code_simp


section \<open>Saving the artifact\<close>

lemma makedirs_empty: "makedirs d [] = Inl FileNotFoundError"
  by (subst makedirs.simps)
     (simp add: split_twice_def path_split_def mkdir_exist_ok_def mkdir_def isdir_def)

lemma dirname_bare:
  assumes "CHR ''/'' \<notin> set p"
  shows "dirname p = []"
proof -
  from assms have "takeWhile (\<lambda>c. c \<noteq> CHR ''/'') (rev p) = rev p"
    by (intro takeWhile_eq_all_conv [THEN iffD2]) auto
  then have "length (takeWhile (\<lambda>c. c \<noteq> CHR ''/'') (rev p)) = length p"
    by (simp only: length_rev)
  then have "length p - length (takeWhile (\<lambda>c. c \<noteq> CHR ''/'') (rev p)) = 0"
    by (simp only: diff_self_eq_0)
  then show ?thesis
    by (simp add: dirname_def path_split_def Let_def)
qed

text \<open>A name without a directory part is never written: \<open>os.makedirs('')\<close> raises.\<close>

lemma save_code_bare:
  "CHR ''/'' \<notin> set filename \<Longrightarrow> save_code filename code st = Inl FileNotFoundError"
  by (simp add: save_code_def dirname_bare makedirs_empty)

lemma of_char_digit: "d < 10 \<Longrightarrow> (of_char (digit d) :: nat) = 48 + d"
  by (simp add: digit_def)

lemma digit_not_slash: "d < 10 \<Longrightarrow> CHR ''/'' \<noteq> digit d"
proof
  assume "d < 10" and "CHR ''/'' = digit d"
  then have "(of_char (digit d) :: nat) = of_char (CHR ''/'')" by simp
  with \<open>d < 10\<close> show False by (simp add: of_char_digit)
qed

lemma str_nat_no_slash: "CHR ''/'' \<notin> set (str_nat n)"
proof (induction n rule: str_nat.induct)
  case (1 n)
  show ?case
  proof (cases "n < 10")
    case True
    then show ?thesis
      by (subst str_nat.simps) (simp add: digit_not_slash)
  next
    case False
    with "1.IH" have "CHR ''/'' \<notin> set (str_nat (n div 10))" by simp
    with False show ?thesis
      by (subst str_nat.simps) (simp add: digit_not_slash)
  qed
qed

lemma auto_filename_bare: "CHR ''/'' \<notin> set (auto_filename c)"
  by (simp add: auto_filename_def str_int_def str_nat_no_slash)

text \<open>What the search for a free name returns: a name of the template, not on the disk, for
  a counter that did not go down.\<close>

lemma free_name_free:
  "fst (free_name d c) = auto_filename (snd (free_name d c))
   \<and> \<not> path_exists d (fst (free_name d c)) \<and> c \<le> snd (free_name d c)"
proof (induction d c rule: free_name.induct)
  case (1 d c)
  show ?case
  proof (cases "path_exists d (auto_filename c)")
    case False
    then have "free_name d c = (auto_filename c, c)"
      by (subst free_name.simps) simp
    with False show ?thesis by simp
  next
    case True
    then have eq: "free_name d c = free_name d (c + 1)"
      by (subst free_name.simps) simp
    from True "1.IH" have "fst (free_name d (c + 1)) = auto_filename (snd (free_name d (c + 1)))"
      and "\<not> path_exists d (fst (free_name d (c + 1)))" and "c + 1 \<le> snd (free_name d (c + 1))"
      by blast+
    then show ?thesis unfolding eq by simp
  qed
qed

text \<open>So no reply without a directive is ever saved, on any disk.\<close>

lemma auto_named_never_saved:
  assumes "extract_code_block ai_response = (filename, language, code)"
    and "truthy code" and "\<not> truthy filename"
  shows "handle_response world ai_response model stdin st
           = (Some FileNotFoundError, stdin,
              st\<lparr>file_counter := snd (free_name (disk st) (file_counter st))\<rparr>)"
proof -
  have "chosen_name filename st = auto_filename (snd (free_name (disk st) (file_counter st)))"
    using assms(3) free_name_free [of "disk st" "file_counter st"] by (simp add: chosen_name_def)
  then have "CHR ''/'' \<notin> set (chosen_name filename st)"
    by (simp add: auto_filename_bare)
  then have "save_code (chosen_name filename st) (the code) (chosen_state filename st)
               = Inl FileNotFoundError"
    by (rule save_code_bare)
  with assms show ?thesis
    by (simp add: handle_response_unfold chosen_state_def)
qed

text \<open>Nor is a reply whose directive names a file without a directory part.\<close>

lemma bare_named_never_saved:
  assumes "extract_code_block ai_response = (Some name, language, code)"
    and "truthy code" and "name \<noteq> []" and "CHR ''/'' \<notin> set name"
  shows "handle_response world ai_response model stdin st = (Some FileNotFoundError, stdin, st)"
proof -
  have "chosen_name (Some name) st = name" and "chosen_state (Some name) st = st"
    using assms(3) by (simp_all add: chosen_name_def chosen_state_def truthy_def)
  moreover have "save_code name (the code) st = Inl FileNotFoundError"
    using assms(4) by (rule save_code_bare)
  ultimately show ?thesis
    using assms(1,2) by (simp add: handle_response_unfold)
qed

text \<open>A directive with a directory part is honoured: the directory is made and the code
  written under the name given.\<close>

lemma named_with_directory_is_written:
  "disk (snd (snd (handle_response offline named_reply ''gemma3:latest'' [''n''] session)))
     = [(''out'', Dir), (''out/a.py'', File ''print(1)'')]"
  by code_simp

text \<open>
  Claim C1 at the reply of the specification's own example: the directive \<open>run.py\<close> is
  extracted, and \<open>handle_response\<close> raises \<open>FileNotFoundError\<close> before anything is written,
  printed or asked.
\<close>

theorem bare_filename_not_written:
  "extract_code_block bare_reply = (Some ''run.py'', Some ''python'', Some ''print(1)'')
   \<and> handle_response offline bare_reply ''gemma3:latest'' [''y'', ''y''] session
       = (Some FileNotFoundError, [''y'', ''y''], session)
   \<and> map_of (disk (snd (snd (handle_response offline bare_reply ''gemma3:latest''
                                 [''y'', ''y''] session)))) ''run.py'' = None"
  by code_simp

text \<open>
  Claim C4 at a reply without a directive: the first free name of the template is chosen and
  nothing is written under it, for the same reason.
\<close>

theorem auto_named_not_written:
  "extract_code_block unnamed_reply = (None, Some ''python'', Some ''print(1)'')
   \<and> free_name (disk session) (file_counter session) = (''generated_py_script_1.py'', 1)
   \<and> handle_response offline unnamed_reply ''gemma3:latest'' [''y'', ''y''] session
       = (Some FileNotFoundError, [''y'', ''y''], session)
   \<and> map_of (disk (snd (snd (handle_response offline unnamed_reply ''gemma3:latest''
                                 [''y'', ''y''] session)))) ''generated_py_script_1.py'' = None"
  by code_simp

text \<open>
  Claim C3 at a disk on which the directory to create is a regular file: \<open>os.makedirs\<close>
  raises \<open>FileExistsError\<close>, which leaves \<open>handle_response\<close> as an exception; no message is
  printed and no input is read.
\<close>

theorem write_error_escapes:
  "handle_response offline named_reply ''gemma3:latest'' [''y'', ''y''] blocked
       = (Some FileExistsError, [''y'', ''y''], blocked)
   \<and> trace (snd (snd (handle_response offline named_reply ''gemma3:latest'' [''y'', ''y''] blocked)))
       = []"
  by code_simp


end
